theory Spec2Isabelle
  imports Main "HOL-Library.Word" "HOL-Library.List_Lexorder"
begin

section \<open>Python values, errors and the two struct layouts\<close>

text \<open>
  The module \<^verbatim>\<open>modules/mmap_store.py\<close> has a reader class \<^verbatim>\<open>SequenceMmapStore\<close> and a
  builder function \<^verbatim>\<open>build_sequence_store\<close>. Bytes are 8-bit words; the order on byte
  lists is the lexicographic order of \<^verbatim>\<open>List_Lexorder\<close> over the unsigned order of words,
  which is how Python compares \<^verbatim>\<open>bytes\<close>. A Python \<^verbatim>\<open>str\<close> is its list of code points.
  The code tests for three bytes-like types. \<open>PyBytes\<close> stands for \<^verbatim>\<open>bytes\<close> and
  \<^verbatim>\<open>bytearray\<close>, whose \<^verbatim>\<open>len\<close> is the number of their bytes. \<open>PyView\<close> is a
  \<^verbatim>\<open>memoryview\<close> (not released): its \<^verbatim>\<open>len\<close> is the first entry of its shape, and none
  for a view of dimension 0, whatever the number of bytes that \<^verbatim>\<open>bytes(view)\<close> gives.
  So \<^verbatim>\<open>memoryview(b"abcd").cast("B", shape=[2, 2])\<close> is \<open>PyView (Some 2) [97, 98, 99, 100]\<close>.
  A dictionary can hold two keys with the same bytes: \<^verbatim>\<open>b"\x80"\<close> and
  \<^verbatim>\<open>memoryview(b"\x80").cast("b")\<close>, whose one item is the signed number \<open>-128\<close>, have
  the same hash and are not equal.
\<close>

type_synonym byte = "8 word"
type_synonym path = string

datatype pyobj =
    PyBytes "byte list"
  | PyView "nat option" "byte list"
  | PyStr "nat list"
  | PyNone

datatype resource = Fd path | Mm path

datatype error =
    ValueError string
  | KeyError pyobj
  | TypeError
  | OverflowError
  | StructError
  | UnicodeEncodeError
  | UnicodeDecodeError
  | FileNotFoundError path
  | CloseError resource

text \<open>\<^verbatim>\<open>MAGIC = b"ULTRAMM1"\<close>\<close>

definition MAGIC :: "byte list" where
  "MAGIC = [85, 76, 84, 82, 65, 77, 77, 49]"

text \<open>\<^verbatim>\<open>HEADER_STRUCT.size\<close> and \<^verbatim>\<open>OFFSET_STRUCT.size\<close>: the formats start with
  \<^verbatim>\<open><\<close>, so there is no padding.\<close>

definition HEADER_SIZE :: nat where
  "HEADER_SIZE = 20"

definition OFFSET_SIZE :: nat where
  "OFFSET_SIZE = 12"

text \<open>Little-endian unsigned fields of \<open>n\<close> bytes.\<close>

fun le_bytes :: "nat \<Rightarrow> nat \<Rightarrow> byte list" where
  "le_bytes 0 v = []"
| "le_bytes (Suc n) v = of_nat (v mod 256) # le_bytes n (v div 256)"

fun le_val :: "byte list \<Rightarrow> nat" where
  "le_val [] = 0"
| "le_val (b # bs) = unat b + 256 * le_val bs"

text \<open>\<^verbatim>\<open>struct.pack\<close> of one unsigned field raises \<^verbatim>\<open>struct.error\<close> when the value does
  not fit.\<close>

definition pack_uint :: "nat \<Rightarrow> nat \<Rightarrow> error + byte list" where
  "pack_uint n v = (if v < 256 ^ n then Inr (le_bytes n v) else Inl StructError)"

text \<open>The \<^verbatim>\<open>8s\<close> field: truncated or zero-padded to 8 bytes.\<close>

definition pack_8s :: "byte list \<Rightarrow> byte list" where
  "pack_8s m = take 8 (m @ replicate (8 - length m) 0)"

text \<open>\<^verbatim>\<open>HEADER_STRUCT.pack(magic, key_size, record_count)\<close>, format \<^verbatim>\<open><8sIQ\<close>.\<close>

definition header_pack :: "byte list \<Rightarrow> nat \<Rightarrow> nat \<Rightarrow> error + byte list" where
  "header_pack m ks n =
     (case pack_uint 4 ks of
        Inl e \<Rightarrow> Inl e
      | Inr a \<Rightarrow> (case pack_uint 8 n of
                   Inl e \<Rightarrow> Inl e
                 | Inr b \<Rightarrow> Inr (pack_8s m @ a @ b)))"

text \<open>\<^verbatim>\<open>OFFSET_STRUCT.pack(offset, length)\<close>, format \<^verbatim>\<open><QI\<close>.\<close>

definition offset_pack :: "nat \<Rightarrow> nat \<Rightarrow> error + byte list" where
  "offset_pack off ln =
     (case pack_uint 8 off of
        Inl e \<Rightarrow> Inl e
      | Inr a \<Rightarrow> (case pack_uint 4 ln of
                   Inl e \<Rightarrow> Inl e
                 | Inr b \<Rightarrow> Inr (a @ b)))"

text \<open>
  \<^verbatim>\<open>Struct.unpack_from(buffer, offset)\<close>: an offset that does not fit a signed 64-bit
  integer is an \<^verbatim>\<open>OverflowError\<close>; a negative offset counts from the end of the buffer;
  \<^verbatim>\<open>struct.error\<close> when fewer than \<open>size\<close> bytes are left at the offset. The result is
  the start position of the fields.
\<close>

definition unpack_start :: "nat \<Rightarrow> nat \<Rightarrow> int \<Rightarrow> error + nat" where
  "unpack_start sz buflen off =
     (if off < - (2 ^ 63) \<or> 2 ^ 63 \<le> off then Inl OverflowError
      else if off < 0 then
        (if off + int sz > 0 then Inl StructError
         else if off + int buflen < 0 then Inl StructError
         else Inr (nat (off + int buflen)))
      else if int buflen - off < int sz then Inl StructError
      else Inr (nat off))"

definition header_unpack_from :: "byte list \<Rightarrow> int \<Rightarrow> error + (byte list \<times> nat \<times> nat)" where
  "header_unpack_from buf off =
     (case unpack_start HEADER_SIZE (length buf) off of
        Inl e \<Rightarrow> Inl e
      | Inr p \<Rightarrow> Inr (take 8 (drop p buf),
                      le_val (take 4 (drop (p + 8) buf)),
                      le_val (take 8 (drop (p + 12) buf))))"

definition offset_unpack_from :: "byte list \<Rightarrow> int \<Rightarrow> error + (nat \<times> nat)" where
  "offset_unpack_from buf off =
     (case unpack_start OFFSET_SIZE (length buf) off of
        Inl e \<Rightarrow> Inl e
      | Inr p \<Rightarrow> Inr (le_val (take 8 (drop p buf)),
                      le_val (take 4 (drop (p + 8) buf))))"

text \<open>\<^verbatim>\<open>xs[i:j]\<close>: negative bounds count from the end, and both bounds are clamped.\<close>

definition slice_bound :: "nat \<Rightarrow> int \<Rightarrow> nat" where
  "slice_bound n k = (if k < 0 then nat (max 0 (k + int n)) else nat (min k (int n)))"

definition py_slice :: "'a list \<Rightarrow> int \<Rightarrow> int \<Rightarrow> 'a list" where
  "py_slice xs i j =
     take (slice_bound (length xs) j - slice_bound (length xs) i)
          (drop (slice_bound (length xs) i) xs)"

text \<open>\<^verbatim>\<open>isinstance(x, (bytes, bytearray, memoryview))\<close>\<close>

fun is_bytes :: "pyobj \<Rightarrow> bool" where
  "is_bytes (PyBytes _) = True"
| "is_bytes (PyView _ _) = True"
| "is_bytes _ = False"

text \<open>\<^verbatim>\<open>len(x)\<close>\<close>

fun py_len :: "pyobj \<Rightarrow> error + nat" where
  "py_len (PyBytes b) = Inr (length b)"
| "py_len (PyView (Some n) b) = Inr n"
| "py_len (PyView None b) = Inl TypeError"
| "py_len (PyStr s) = Inr (length s)"
| "py_len PyNone = Inl TypeError"

text \<open>\<^verbatim>\<open>bytes(x)\<close>: a copy of a bytes-like object; \<^verbatim>\<open>TypeError\<close> for a string without an
  encoding and for \<^verbatim>\<open>None\<close>.\<close>

fun py_bytes :: "pyobj \<Rightarrow> error + byte list" where
  "py_bytes (PyBytes b) = Inr b"
| "py_bytes (PyView n b) = Inr b"
| "py_bytes _ = Inl TypeError"

text \<open>\<^verbatim>\<open>bytes(key)\<close> for a key that has passed the \<^verbatim>\<open>isinstance\<close> test: the code calls
  it on such keys only.\<close>

fun bytes_of :: "pyobj \<Rightarrow> byte list" where
  "bytes_of (PyBytes b) = b"
| "bytes_of (PyView n b) = b"
| "bytes_of _ = []"

text \<open>\<^verbatim>\<open>s.encode("ascii")\<close> and \<^verbatim>\<open>b.decode("ascii")\<close>\<close>

definition encode_ascii :: "nat list \<Rightarrow> error + byte list" where
  "encode_ascii s = (if list_all (\<lambda>c. c < 128) s then Inr (map of_nat s) else Inl UnicodeEncodeError)"

definition decode_ascii :: "byte list \<Rightarrow> error + nat list" where
  "decode_ascii bs = (if list_all (\<lambda>b. b < 128) bs then Inr (map unat bs) else Inl UnicodeDecodeError)"

section \<open>The files, the builder's I/O calls and the reader's resources\<close>

text \<open>
  The state outside the program: the content of each file, the builder's calls on its
  two output files in program order, and the file handles and memory mappings that are
  currently open. Opening a file for writing always succeeds here; failures of the
  operating system on the output paths are outside the model. A \<^verbatim>\<open>write\<close> call appends
  to the content of its file; the buffer between the call and the operating system is not
  modelled, so the order of the writes is the order of the calls.
\<close>

datatype event = OpenW path | Write path "byte list" | CloseW path

record world =
  files :: "path \<Rightarrow> byte list option"
  events :: "event list"
  held :: "resource list"

text \<open>\<^verbatim>\<open>open(p, "wb")\<close> creates or truncates the file.\<close>

definition open_wb :: "path \<Rightarrow> world \<Rightarrow> world" where
  "open_wb p w = w\<lparr>files := (files w)(p \<mapsto> []), events := events w @ [OpenW p]\<rparr>"

definition write_f :: "path \<Rightarrow> byte list \<Rightarrow> world \<Rightarrow> world" where
  "write_f p bs w =
     w\<lparr>files := (files w)(p \<mapsto> (case files w p of None \<Rightarrow> bs | Some old \<Rightarrow> old @ bs)),
       events := events w @ [Write p bs]\<rparr>"

definition close_w :: "path \<Rightarrow> world \<Rightarrow> world" where
  "close_w p w = w\<lparr>events := events w @ [CloseW p]\<rparr>"

definition acquire :: "resource \<Rightarrow> world \<Rightarrow> world" where
  "acquire r w = w\<lparr>held := held w @ [r]\<rparr>"

text \<open>\<^verbatim>\<open>os.path.join(a, b)\<close> on POSIX.\<close>

definition path_join :: "string \<Rightarrow> string \<Rightarrow> string" where
  "path_join a b =
     (if take 1 b = ''/'' then b
      else if a = [] \<or> last a = CHR ''/'' then a @ b
      else a @ ''/'' @ b)"

section \<open>The reader: SequenceMmapStore\<close>

record store =
  index_fd :: path
  data_fd :: path
  index_mm :: "byte list"
  data_mm :: "byte list"
  key_size :: nat
  count :: nat
  header_size :: nat
  record_size :: nat

text \<open>
  \<^verbatim>\<open>__init__\<close>: two \<^verbatim>\<open>open(.., "rb")\<close>, two \<^verbatim>\<open>mmap.mmap(fd, 0, access=ACCESS_READ)\<close>
  (which raises \<^verbatim>\<open>ValueError\<close> on an empty file), the header, the magic test. Every
  exit returns the world as it is at that point: the constructor has no release step.
  The two mappings are the contents of the two files, which nothing changes while the
  reader is open; the queries below are those of an open reader.
\<close>

definition init :: "path \<Rightarrow> path \<Rightarrow> world \<Rightarrow> world \<times> (error + store)" where
  "init index_path data_path w =
     (case files w index_path of
        None \<Rightarrow> (w, Inl (FileNotFoundError index_path))
      | Some ib \<Rightarrow>
          let w1 = acquire (Fd index_path) w in
          (case files w1 data_path of
             None \<Rightarrow> (w1, Inl (FileNotFoundError data_path))
           | Some db \<Rightarrow>
               let w2 = acquire (Fd data_path) w1 in
               if ib = [] then (w2, Inl (ValueError ''cannot mmap an empty file''))
               else
                 let w3 = acquire (Mm index_path) w2 in
                 if db = [] then (w3, Inl (ValueError ''cannot mmap an empty file''))
                 else
                   let w4 = acquire (Mm data_path) w3 in
                   (case header_unpack_from ib 0 of
                      Inl e \<Rightarrow> (w4, Inl e)
                    | Inr (magic, ks, n) \<Rightarrow>
                        if magic \<noteq> MAGIC
                        then (w4, Inl (ValueError (''Invalid mmap index file magic: '' @ index_path)))
                        else (w4, Inr \<lparr>index_fd = index_path, data_fd = data_path,
                                       index_mm = ib, data_mm = db,
                                       key_size = ks, count = n,
                                       header_size = HEADER_SIZE,
                                       record_size = ks + OFFSET_SIZE\<rparr>))))"

text \<open>\<^verbatim>\<open>__len__\<close>\<close>

definition len :: "store \<Rightarrow> nat" where
  "len st = count st"

text \<open>\<^verbatim>\<open>_offset_and_length\<close>\<close>

definition offset_and_length :: "store \<Rightarrow> int \<Rightarrow> error + (nat \<times> nat)" where
  "offset_and_length st idx =
     (let base = int (header_size st) + idx * int (record_size st) + int (key_size st)
      in offset_unpack_from (index_mm st) base)"

text \<open>\<^verbatim>\<open>_key_at\<close>\<close>

definition key_at :: "store \<Rightarrow> int \<Rightarrow> byte list" where
  "key_at st idx =
     (let base = int (header_size st) + idx * int (record_size st)
      in py_slice (index_mm st) base (base + int (key_size st)))"

text \<open>The \<^verbatim>\<open>while lo <= hi\<close> loop of \<^verbatim>\<open>_find_index\<close>; \<open>- 1\<close> is "not found".\<close>

function find_index_loop :: "store \<Rightarrow> byte list \<Rightarrow> int \<Rightarrow> int \<Rightarrow> int" where
  "find_index_loop st key_bytes lo hi =
     (if lo \<le> hi then
        (let mid = (lo + hi) div 2; mid_key = key_at st mid in
         if mid_key = key_bytes then mid
         else if mid_key < key_bytes then find_index_loop st key_bytes (mid + 1) hi
         else find_index_loop st key_bytes lo (mid - 1))
      else - 1)"
  by pat_completeness auto
termination
  by (relation "measure (\<lambda>(st, k, lo, hi). nat (hi - lo + 1))") auto

text \<open>\<^verbatim>\<open>_find_index\<close>\<close>

definition find_index :: "store \<Rightarrow> pyobj \<Rightarrow> int" where
  "find_index st key =
     (if \<not> is_bytes key then - 1
      else
        let key_bytes = bytes_of key in
        if length key_bytes \<noteq> key_size st then - 1
        else find_index_loop st key_bytes 0 (int (count st) - 1))"

text \<open>\<^verbatim>\<open>__contains__\<close>\<close>

definition contains :: "store \<Rightarrow> pyobj \<Rightarrow> bool" where
  "contains st key = (find_index st key \<ge> 0)"

text \<open>\<^verbatim>\<open>get(key, default)\<close>: the slice of the data mapping, decoded as ASCII.\<close>

definition get :: "store \<Rightarrow> pyobj \<Rightarrow> pyobj \<Rightarrow> error + pyobj" where
  "get st key default' =
     (let idx = find_index st key in
      if idx < 0 then Inr default'
      else
        (case offset_and_length st idx of
           Inl e \<Rightarrow> Inl e
         | Inr (offset, length') \<Rightarrow>
             (case decode_ascii (py_slice (data_mm st) (int offset) (int offset + int length')) of
                Inl e \<Rightarrow> Inl e
              | Inr s \<Rightarrow> Inr (PyStr s))))"

text \<open>\<^verbatim>\<open>__getitem__\<close>\<close>

definition getitem :: "store \<Rightarrow> pyobj \<Rightarrow> error + pyobj" where
  "getitem st key =
     (case get st key PyNone of
        Inl e \<Rightarrow> Inl e
      | Inr v \<Rightarrow> if v = PyNone then Inl (KeyError key) else Inr v)"

text \<open>
  \<^verbatim>\<open>close()\<close>. Releasing a resource either removes it from the open ones or raises; which
  releases raise is a parameter. \<^verbatim>\<open>try: a finally: b\<close> runs \<open>b\<close> whatever \<open>a\<close> did; an
  error of \<open>b\<close> replaces the one of \<open>a\<close>. The second \<^verbatim>\<open>try\<close> statement runs only when the
  first one raised nothing.
\<close>

definition release :: "(resource \<Rightarrow> bool) \<Rightarrow> resource \<Rightarrow> world \<Rightarrow> world \<times> error option" where
  "release fails r w =
     (if fails r then (w, Some (CloseError r))
      else (w\<lparr>held := remove1 r (held w)\<rparr>, None))"

definition try_finally ::
  "(world \<Rightarrow> world \<times> error option) \<Rightarrow> (world \<Rightarrow> world \<times> error option) \<Rightarrow>
   world \<Rightarrow> world \<times> error option" where
  "try_finally body fin w =
     (case body w of
        (w1, e1) \<Rightarrow>
          (case fin w1 of
             (w2, e2) \<Rightarrow> (w2, case e2 of Some e \<Rightarrow> Some e | None \<Rightarrow> e1)))"

definition close :: "(resource \<Rightarrow> bool) \<Rightarrow> store \<Rightarrow> world \<Rightarrow> world \<times> error option" where
  "close fails st w =
     (case try_finally (release fails (Mm (index_fd st))) (release fails (Fd (index_fd st))) w of
        (w1, Some e) \<Rightarrow> (w1, Some e)
      | (w1, None) \<Rightarrow>
          try_finally (release fails (Mm (data_fd st))) (release fails (Fd (data_fd st))) w1)"

section \<open>The builder: build\_sequence\_store\<close>

text \<open>The validation loop over the items (lines 96 to 100). It compares \<^verbatim>\<open>len(key)\<close>
  with the key size, not the number of bytes of the key.\<close>

fun check_keys :: "string \<Rightarrow> nat \<Rightarrow> (pyobj \<times> pyobj) list \<Rightarrow> error option" where
  "check_keys basename ks [] = None"
| "check_keys basename ks ((key, v) # rest) =
     (if \<not> is_bytes key
      then Some (ValueError (''Keys must be bytes for mmap store: '' @ basename))
      else
        (case py_len key of
           Inl e \<Rightarrow> Some e
         | Inr n \<Rightarrow>
             if n \<noteq> ks
             then Some (ValueError (''Inconsistent key size in mmap store: '' @ basename))
             else check_keys basename ks rest))"

text \<open>Lines 108 to 111: text is encoded as ASCII, anything else goes through
  \<^verbatim>\<open>bytes(seq)\<close>.\<close>

definition seq_bytes_of :: "pyobj \<Rightarrow> error + byte list" where
  "seq_bytes_of sq = (case sq of PyStr s \<Rightarrow> encode_ascii s | _ \<Rightarrow> py_bytes sq)"

text \<open>The write loop (lines 107 to 115).\<close>

fun write_records ::
  "path \<Rightarrow> path \<Rightarrow> nat \<Rightarrow> (pyobj \<times> pyobj) list \<Rightarrow> world \<Rightarrow> world \<times> (error + unit)" where
  "write_records data_path index_path offset [] w = (w, Inr ())"
| "write_records data_path index_path offset ((key, sq) # rest) w =
     (case seq_bytes_of sq of
        Inl e \<Rightarrow> (w, Inl e)
      | Inr seq_bytes \<Rightarrow>
          let w1 = write_f data_path seq_bytes w;
              w2 = write_f index_path (bytes_of key) w1
          in (case offset_pack offset (length seq_bytes) of
                Inl e \<Rightarrow> (w2, Inl e)
              | Inr r \<Rightarrow>
                  write_records data_path index_path (offset + length seq_bytes) rest
                    (write_f index_path r w2)))"

text \<open>
  \<^verbatim>\<open>build_sequence_store(index_folder, basename, seq_dict)\<close>. The dictionary is the list
  of its items in iteration order. The key size is \<^verbatim>\<open>len(first_key)\<close> (line 94); what
  the loop writes for a key is \<^verbatim>\<open>bytes(key)\<close> (line 113). The \<^verbatim>\<open>with\<close> statement opens
  the data file, then the index file, and on every exit closes the index file, then the
  data file.
\<close>

definition build_sequence_store ::
  "string \<Rightarrow> string \<Rightarrow> (pyobj \<times> pyobj) list \<Rightarrow> world \<Rightarrow> world \<times> (error + unit)" where
  "build_sequence_store index_folder basename seq_dict w =
     (case seq_dict of
        [] \<Rightarrow> (w, Inr ())
      | (first_key, first_value) # others \<Rightarrow>
          let index_path = path_join index_folder (basename @ ''.mmidx'');
              data_path = path_join index_folder (basename @ ''.mmdata'')
          in
          if \<not> is_bytes first_key
          then (w, Inl (ValueError (''Keys must be bytes for mmap store: '' @ basename)))
          else
            (case py_len first_key of
               Inl e \<Rightarrow> (w, Inl e)
             | Inr ks \<Rightarrow>
                 (case check_keys basename ks seq_dict of
                    Some e \<Rightarrow> (w, Inl e)
                  | None \<Rightarrow>
                      let items = sort_key (\<lambda>kv. bytes_of (fst kv)) seq_dict;
                          w1 = open_wb index_path (open_wb data_path w);
                          (w2, r) =
                            (case header_pack MAGIC ks (length items) of
                               Inl e \<Rightarrow> (w1, Inl e)
                             | Inr h \<Rightarrow>
                                 write_records data_path index_path 0 items
                                   (write_f index_path h w1))
                      in (close_w data_path (close_w index_path w2), r))))"

section \<open>What the builder writes, as values\<close>

text \<open>
  The rest of the definitions describe the output of the builder, so that the theorems can
  say what is in the two files. The two paths of lines 87 and 88:
\<close>

definition index_path_of :: "string \<Rightarrow> string \<Rightarrow> path" where
  "index_path_of index_folder basename = path_join index_folder (basename @ ''.mmidx'')"

definition data_path_of :: "string \<Rightarrow> string \<Rightarrow> path" where
  "data_path_of index_folder basename = path_join index_folder (basename @ ''.mmdata'')"

text \<open>Line 102: the items after \<^verbatim>\<open>items.sort(key=lambda kv: bytes(kv[0]))\<close>.\<close>

definition sorted_items :: "(pyobj \<times> pyobj) list \<Rightarrow> (pyobj \<times> pyobj) list" where
  "sorted_items seq_dict = sort_key (\<lambda>kv. bytes_of (fst kv)) seq_dict"

text \<open>Every key is bytes-like and has \<^verbatim>\<open>len\<close> \<open>ks\<close>: what the validation loop accepts.\<close>

definition keys_ok :: "nat \<Rightarrow> (pyobj \<times> pyobj) list \<Rightarrow> bool" where
  "keys_ok ks items = list_all (\<lambda>kv. is_bytes (fst kv) \<and> py_len (fst kv) = Inr ks) items"

text \<open>Every key has \<open>ks\<close> bytes: what the record layout of the reader needs.\<close>

definition flat_keys :: "nat \<Rightarrow> (pyobj \<times> pyobj) list \<Rightarrow> bool" where
  "flat_keys ks items = list_all (\<lambda>kv. length (bytes_of (fst kv)) = ks) items"

text \<open>The bytes written for a value (the empty list where the encoding raises).\<close>

definition seq_bytes :: "pyobj \<Rightarrow> byte list" where
  "seq_bytes sq = (case seq_bytes_of sq of Inl e \<Rightarrow> [] | Inr b \<Rightarrow> b)"

text \<open>The write loop raises nothing on these items, starting at this offset.\<close>

fun fits :: "nat \<Rightarrow> (pyobj \<times> pyobj) list \<Rightarrow> bool" where
  "fits off [] = True"
| "fits off ((key, sq) # rest) =
     (case seq_bytes_of sq of
        Inl e \<Rightarrow> False
      | Inr b \<Rightarrow> off < 256 ^ 8 \<and> length b < 256 ^ 4 \<and> fits (off + length b) rest)"

text \<open>The record array, the data file and the header as the loop writes them.\<close>

fun records :: "nat \<Rightarrow> (pyobj \<times> pyobj) list \<Rightarrow> byte list" where
  "records off [] = []"
| "records off ((key, sq) # rest) =
     bytes_of key @ le_bytes 8 off @ le_bytes 4 (length (seq_bytes sq)) @
     records (off + length (seq_bytes sq)) rest"

definition data_of :: "(pyobj \<times> pyobj) list \<Rightarrow> byte list" where
  "data_of items = concat (map (\<lambda>kv. seq_bytes (snd kv)) items)"

definition header_of :: "nat \<Rightarrow> nat \<Rightarrow> byte list" where
  "header_of ks n = MAGIC @ le_bytes 4 ks @ le_bytes 8 n"

text \<open>The offset of record \<open>i\<close>: the lengths of the values before it.\<close>

definition offset_at :: "nat \<Rightarrow> (pyobj \<times> pyobj) list \<Rightarrow> nat \<Rightarrow> nat" where
  "offset_at off items i = off + sum_list (map (\<lambda>kv. length (seq_bytes (snd kv))) (take i items))"

text \<open>The calls on the two files made by the write loop, and by a whole successful build.\<close>

fun record_events :: "path \<Rightarrow> path \<Rightarrow> nat \<Rightarrow> (pyobj \<times> pyobj) list \<Rightarrow> event list" where
  "record_events dp ip off [] = []"
| "record_events dp ip off ((key, sq) # rest) =
     [Write dp (seq_bytes sq), Write ip (bytes_of key),
      Write ip (le_bytes 8 off @ le_bytes 4 (length (seq_bytes sq)))] @
     record_events dp ip (off + length (seq_bytes sq)) rest"

definition build_events :: "path \<Rightarrow> path \<Rightarrow> nat \<Rightarrow> (pyobj \<times> pyobj) list \<Rightarrow> event list" where
  "build_events dp ip ks items =
     [OpenW dp, OpenW ip, Write ip (header_of ks (length items))] @
     record_events dp ip 0 items @ [CloseW ip, CloseW dp]"

text \<open>The reader object that \<^verbatim>\<open>__init__\<close> returns on the files of a build.\<close>

definition store_of :: "path \<Rightarrow> path \<Rightarrow> nat \<Rightarrow> (pyobj \<times> pyobj) list \<Rightarrow> store" where
  "store_of ip dp ks items =
     \<lparr>index_fd = ip, data_fd = dp,
      index_mm = header_of ks (length items) @ records 0 items,
      data_mm = data_of items,
      key_size = ks, count = length items,
      header_size = HEADER_SIZE, record_size = ks + OFFSET_SIZE\<rparr>"

text \<open>The keys of the records, in record order.\<close>

definition keys_of :: "(pyobj \<times> pyobj) list \<Rightarrow> byte list list" where
  "keys_of items = map (\<lambda>kv. bytes_of (fst kv)) items"

section \<open>The vocabulary of the properties, and sample inputs\<close>

text \<open>A value whose characters or bytes are all in the range 0 to 127, and the text that
  \<^verbatim>\<open>get\<close> returns for it: one character per code point or per byte.\<close>

fun ascii_value :: "pyobj \<Rightarrow> bool" where
  "ascii_value (PyStr s) = list_all (\<lambda>c. c < 128) s"
| "ascii_value (PyBytes bs) = list_all (\<lambda>x. x < 128) bs"
| "ascii_value (PyView n bs) = list_all (\<lambda>x. x < 128) bs"
| "ascii_value PyNone = False"

fun content :: "pyobj \<Rightarrow> nat list" where
  "content (PyStr s) = s"
| "content (PyBytes bs) = map unat bs"
| "content (PyView n bs) = map unat bs"
| "content PyNone = []"

text \<open>
  The property "the data file is written first, the index file second", on the calls in
  program order: once a call has written bytes to the index file, no later call writes
  bytes to the data file.
\<close>

fun writes_to :: "path \<Rightarrow> event \<Rightarrow> bool" where
  "writes_to p (Write q bs) = (q = p \<and> bs \<noteq> [])"
| "writes_to p _ = False"

definition data_file_written_first :: "path \<Rightarrow> path \<Rightarrow> event list \<Rightarrow> bool" where
  "data_file_written_first data_path index_path evs =
     list_all (\<lambda>e. \<not> writes_to data_path e) (dropWhile (\<lambda>e. \<not> writes_to index_path e) evs)"

text \<open>No file, no call made, nothing open.\<close>

definition empty_world :: world where
  "empty_world = \<lparr>files = Map.empty, events = [], held = []\<rparr>"

text \<open>The mapping \<^verbatim>\<open>{b"AAAA": "hello", b"ZZZZ": "world", b"MMMM": "mid"}\<close>.\<close>

definition spec_entries :: "(pyobj \<times> pyobj) list" where
  "spec_entries =
     [(PyBytes [65, 65, 65, 65], PyStr [104, 101, 108, 108, 111]),
      (PyBytes [90, 90, 90, 90], PyStr [119, 111, 114, 108, 100]),
      (PyBytes [77, 77, 77, 77], PyStr [109, 105, 100])]"

text \<open>The reader on the files built from \<^verbatim>\<open>{b"\x01": b"\xff"}\<close>, and the world after
  opening it.\<close>

definition single_store :: store where
  "single_store =
     \<lparr>index_fd = ''out/seqs.mmidx'', data_fd = ''out/seqs.mmdata'',
      index_mm = [85, 76, 84, 82, 65, 77, 77, 49, 1, 0, 0, 0, 1, 0, 0, 0, 0, 0, 0, 0,
                  1, 0, 0, 0, 0, 0, 0, 0, 0, 1, 0, 0, 0],
      data_mm = [255],
      key_size = 1, count = 1, header_size = 20, record_size = 13\<rparr>"

definition single_world :: world where
  "single_world =
     fst (init ''out/seqs.mmidx'' ''out/seqs.mmdata''
       (fst (build_sequence_store ''out'' ''seqs'' [(PyBytes [1], PyBytes [255])] empty_world)))"

text \<open>The reader on the files built from
  \<^verbatim>\<open>{memoryview(b"abcd").cast("B", shape=[2, 2]): "A"}\<close>: the header holds the key size
  2, the record a key of 4 bytes.\<close>

definition view_store :: store where
  "view_store =
     \<lparr>index_fd = ''out/seqs.mmidx'', data_fd = ''out/seqs.mmdata'',
      index_mm = [85, 76, 84, 82, 65, 77, 77, 49, 2, 0, 0, 0, 1, 0, 0, 0, 0, 0, 0, 0,
                  97, 98, 99, 100, 0, 0, 0, 0, 0, 0, 0, 0, 1, 0, 0, 0],
      data_mm = [65],
      key_size = 2, count = 1, header_size = 20, record_size = 14\<rparr>"

text \<open>The reader on the files built from
  \<^verbatim>\<open>{b"\x80": "A", memoryview(b"\x80").cast("b"): "B"}\<close>: two keys with the same byte.\<close>

definition dup_store :: store where
  "dup_store =
     \<lparr>index_fd = ''out/seqs.mmidx'', data_fd = ''out/seqs.mmdata'',
      index_mm = [85, 76, 84, 82, 65, 77, 77, 49, 1, 0, 0, 0, 2, 0, 0, 0, 0, 0, 0, 0,
                  128, 0, 0, 0, 0, 0, 0, 0, 0, 1, 0, 0, 0,
                  128, 1, 0, 0, 0, 0, 0, 0, 0, 1, 0, 0, 0],
      data_mm = [65, 66],
      key_size = 1, count = 2, header_size = 20, record_size = 13\<rparr>"


text \<open>An index file whose first byte is not the one of the magic tag, a second one cut
  after nine bytes, and a data file of one byte.\<close>

definition bad_magic_world :: world where
  "bad_magic_world =
     \<lparr>files = [''bad.mmidx'' \<mapsto> [88, 76, 84, 82, 65, 77, 77, 49, 4, 0, 0, 0, 0, 0, 0, 0, 0, 0, 0, 0],
               ''short.mmidx'' \<mapsto> [88, 76, 84, 82, 65, 77, 77, 49, 4],
               ''bad.mmdata'' \<mapsto> [65]],
      events = [], held = []\<rparr>"

section \<open>Key validation and the two output paths\<close>

lemma check_keys_None:
  "check_keys b ks items = None \<longleftrightarrow>
     list_all (\<lambda>kv. is_bytes (fst kv) \<and> py_len (fst kv) = Inr ks) items"
  by (induction items) (auto split: if_splits sum.splits)

lemma last_path_join: "b \<noteq> [] \<Longrightarrow> last (path_join a b) = last b"
  by (simp add: path_join_def)

lemma paths_differ:
  "path_join d (b @ ''.mmidx'') \<noteq> path_join d (b @ ''.mmdata'')"
proof
  assume "path_join d (b @ ''.mmidx'') = path_join d (b @ ''.mmdata'')"
  then have "last (path_join d (b @ ''.mmidx'')) = last (path_join d (b @ ''.mmdata''))"
    by simp
  then show False by (simp add: last_path_join)
qed

section \<open>Little-endian fields and slices\<close>

lemma length_le_bytes [simp]: "length (le_bytes n v) = n"
  by (induction n arbitrary: v) simp_all

lemma le_val_le_bytes: "v < 256 ^ n \<Longrightarrow> le_val (le_bytes n v) = v"
proof (induction n arbitrary: v)
  case 0
  then show ?case by simp
next
  case (Suc n)
  have "v div 256 < 256 ^ n"
    using Suc.prems by (simp add: less_mult_imp_div_less mult.commute)
  then have "le_val (le_bytes n (v div 256)) = v div 256"
    by (rule Suc.IH)
  moreover have "unat (of_nat (v mod 256) :: byte) = v mod 256"
    by (simp add: unat_of_nat)
  ultimately show ?case by simp
qed

lemma pack_uint_Inr: "pack_uint n v = Inr b \<longleftrightarrow> v < 256 ^ n \<and> b = le_bytes n v"
  by (auto simp: pack_uint_def)

lemma offset_pack_Inr:
  "offset_pack off ln = Inr r \<longleftrightarrow>
     off < 256 ^ 8 \<and> ln < 256 ^ 4 \<and> r = le_bytes 8 off @ le_bytes 4 ln"
  by (auto simp: offset_pack_def pack_uint_def split: sum.splits)

lemma header_pack_Inr:
  "header_pack m ks n = Inr h \<longleftrightarrow>
     ks < 256 ^ 4 \<and> n < 256 ^ 8 \<and> h = pack_8s m @ le_bytes 4 ks @ le_bytes 8 n"
  by (auto simp: header_pack_def pack_uint_def split: sum.splits)

lemma pack_8s_MAGIC [simp]: "pack_8s MAGIC = MAGIC"
  by (simp add: pack_8s_def MAGIC_def)

lemma length_MAGIC [simp]: "length MAGIC = 8"
  by (simp add: MAGIC_def)

lemma slice_bound_nat: "slice_bound n (int a) = min a n"
  by (simp add: slice_bound_def min_def)

lemma py_slice_nat: "py_slice xs (int a) (int a + int l) = take l (drop a xs)"
proof -
  have "py_slice xs (int a) (int (a + l)) =
      take (min (a + l) (length xs) - min a (length xs)) (drop (min a (length xs)) xs)"
    unfolding py_slice_def slice_bound_nat ..
  also have "\<dots> = take l (drop a xs)"
    by (cases "a \<le> length xs") (auto simp: min_def)
  finally show ?thesis by simp
qed

lemma header_unpack_from_0:
  assumes "ks < 256 ^ 4" "n < 256 ^ 8"
  shows "header_unpack_from (MAGIC @ le_bytes 4 ks @ le_bytes 8 n @ rest) 0 = Inr (MAGIC, ks, n)"
  using assms
  by (simp add: header_unpack_from_def unpack_start_def HEADER_SIZE_def le_val_le_bytes)

section \<open>The write loop\<close>

lemma write_records_ok:
  "snd (write_records dp ip off items w) = Inr () \<longleftrightarrow> fits off items"
proof (induction items arbitrary: off w)
  case Nil
  then show ?case by simp
next
  case (Cons kv items)
  obtain key sq where kv: "kv = (key, sq)" by (cases kv)
  show ?case
    by (auto simp: kv Let_def offset_pack_def pack_uint_def Cons.IH split: sum.splits)
qed

lemma write_f_files_same:
  "files (write_f p bs w) p = Some (case files w p of None \<Rightarrow> bs | Some old \<Rightarrow> old @ bs)"
  by (simp add: write_f_def)

lemma write_f_files_other: "q \<noteq> p \<Longrightarrow> files (write_f p bs w) q = files w q"
  by (simp add: write_f_def)

lemma write_f_held [simp]: "held (write_f p bs w) = held w"
  by (simp add: write_f_def)

lemma write_f_events [simp]: "events (write_f p bs w) = events w @ [Write p bs]"
  by (simp add: write_f_def)

lemma write_records_files:
  assumes "fits off items" "dp \<noteq> ip" "files w dp = Some d0" "files w ip = Some i0"
  shows "files (fst (write_records dp ip off items w)) dp = Some (d0 @ data_of items) \<and>
         files (fst (write_records dp ip off items w)) ip = Some (i0 @ records off items) \<and>
         (\<forall>q. q \<noteq> dp \<and> q \<noteq> ip \<longrightarrow> files (fst (write_records dp ip off items w)) q = files w q) \<and>
         held (fst (write_records dp ip off items w)) = held w \<and>
         events (fst (write_records dp ip off items w)) = events w @ record_events dp ip off items"
  using assms
proof (induction items arbitrary: off w d0 i0)
  case Nil
  then show ?case by (simp add: data_of_def)
next
  case (Cons kv items)
  obtain key sq where kv: "kv = (key, sq)" by (cases kv)
  from Cons.prems(1) obtain b where b: "seq_bytes_of sq = Inr b"
    and off: "off < 256 ^ 8" and lb: "length b < 256 ^ 4" and rest: "fits (off + length b) items"
    by (auto simp: kv split: sum.splits)
  have sb: "seq_bytes sq = b" by (simp add: seq_bytes_def b)
  define r where "r = le_bytes 8 off @ le_bytes 4 (length b)"
  have pk: "offset_pack off (length b) = Inr r"
    using off lb by (simp add: offset_pack_Inr r_def)
  define w3 where "w3 = write_f ip r (write_f ip (bytes_of key) (write_f dp b w))"
  have step: "write_records dp ip off (kv # items) w = write_records dp ip (off + length b) items w3"
    by (simp add: kv b pk w3_def Let_def)
  have f_dp: "files w3 dp = Some (d0 @ b)"
    using Cons.prems(2,3) by (simp add: w3_def write_f_files_other write_f_files_same)
  have f_ip: "files w3 ip = Some (i0 @ bytes_of key @ r)"
    using Cons.prems(2,4) by (simp add: w3_def write_f_files_other write_f_files_same)
  have f_other: "\<And>q. q \<noteq> dp \<and> q \<noteq> ip \<Longrightarrow> files w3 q = files w q"
    by (simp add: w3_def write_f_files_other)
  have h3: "held w3 = held w" by (simp add: w3_def)
  have e3: "events w3 = events w @ [Write dp b, Write ip (bytes_of key), Write ip r]"
    by (simp add: w3_def)
  note IH = Cons.IH [OF rest Cons.prems(2) f_dp f_ip]
  show ?case
    unfolding step using IH f_other h3 e3
    by (simp add: kv sb data_of_def r_def)
qed

section \<open>The files of a successful build\<close>

lemma paths_of_differ: "data_path_of d b \<noteq> index_path_of d b"
  using paths_differ [of d b] by (simp add: index_path_of_def data_path_of_def)

lemma build_unfold:
  assumes "seq_dict \<noteq> []" "keys_ok ks seq_dict"
  shows "build_sequence_store d b seq_dict w =
     (case (case header_pack MAGIC ks (length seq_dict) of
              Inl e \<Rightarrow> (open_wb (index_path_of d b) (open_wb (data_path_of d b) w), Inl e)
            | Inr h \<Rightarrow>
                write_records (data_path_of d b) (index_path_of d b) 0 (sorted_items seq_dict)
                  (write_f (index_path_of d b) h
                     (open_wb (index_path_of d b) (open_wb (data_path_of d b) w)))) of
        (w2, r) \<Rightarrow> (close_w (data_path_of d b) (close_w (index_path_of d b) w2), r))"
proof -
  obtain k0 v0 rest where sd: "seq_dict = (k0, v0) # rest"
    using assms(1) by (cases seq_dict) auto
  have k0: "is_bytes k0" "py_len k0 = Inr ks"
    using assms(2) by (simp_all add: keys_ok_def sd)
  have ck: "check_keys b ks ((k0, v0) # rest) = None"
    using assms(2) unfolding sd keys_ok_def check_keys_None .
  have ln: "length (sorted_items ((k0, v0) # rest)) = Suc (length rest)"
    by (simp add: sorted_items_def)
  show ?thesis
    unfolding build_sequence_store_def Let_def sd list.case prod.case
      index_path_of_def [symmetric] data_path_of_def [symmetric] sorted_items_def [symmetric]
    using k0 ck ln by (simp del: check_keys.simps)
qed

lemma build_Inr_keys:
  assumes "build_sequence_store d b seq_dict w = (w', Inr ())" "seq_dict \<noteq> []"
  shows "\<exists>ks. py_len (fst (hd seq_dict)) = Inr ks \<and> keys_ok ks seq_dict"
proof -
  obtain k0 v0 rest where sd: "seq_dict = (k0, v0) # rest"
    using assms(2) by (cases seq_dict) auto
  have b0: "is_bytes k0"
    using assms(1) by (auto simp: build_sequence_store_def sd Let_def split: if_splits simp del: check_keys.simps)
  obtain ks where ks: "py_len k0 = Inr ks"
    using assms(1) b0
    by (cases "py_len k0") (auto simp: build_sequence_store_def sd Let_def simp del: check_keys.simps)
  have "check_keys b ks seq_dict = None"
    using assms(1) b0 ks
    by (auto simp: build_sequence_store_def sd Let_def split: option.splits simp del: check_keys.simps)
  then have "keys_ok ks seq_dict"
    by (simp add: keys_ok_def check_keys_None)
  with ks show ?thesis by (auto simp: sd)
qed

lemma open_wb_simps [simp]:
  "files (open_wb p w) = (files w)(p \<mapsto> [])"
  "held (open_wb p w) = held w"
  "events (open_wb p w) = events w @ [OpenW p]"
  by (simp_all add: open_wb_def)

lemma close_w_simps [simp]:
  "files (close_w p w) = files w"
  "held (close_w p w) = held w"
  "events (close_w p w) = events w @ [CloseW p]"
  by (simp_all add: close_w_def)

lemma build_Inr:
  assumes ok: "build_sequence_store d b seq_dict w = (w', Inr ())" and ne: "seq_dict \<noteq> []"
    and keys: "keys_ok ks seq_dict"
  shows "keys_ok ks seq_dict"
    and "ks < 256 ^ 4"
    and "length seq_dict < 256 ^ 8"
    and "fits 0 (sorted_items seq_dict)"
    and "files w' (index_path_of d b) =
           Some (header_of ks (length seq_dict) @ records 0 (sorted_items seq_dict))"
    and "files w' (data_path_of d b) = Some (data_of (sorted_items seq_dict))"
    and "held w' = held w"
    and "events w' = events w @
           build_events (data_path_of d b) (index_path_of d b) ks (sorted_items seq_dict)"
proof -
  let ?dp = "data_path_of d b" and ?ip = "index_path_of d b"
  let ?w1 = "open_wb ?ip (open_wb ?dp w)"
  show "keys_ok ks seq_dict" by (rule keys)
  note unf = build_unfold [OF ne keys, of d b w]
  obtain h where h: "header_pack MAGIC ks (length seq_dict) = Inr h"
    using ok unfolding unf by (cases "header_pack MAGIC ks (length seq_dict)") auto
  then have hb: "ks < 256 ^ 4" "length seq_dict < 256 ^ 8" "h = header_of ks (length seq_dict)"
    by (simp_all add: header_pack_Inr header_of_def)
  show "ks < 256 ^ 4" "length seq_dict < 256 ^ 8" by (rule hb)+
  let ?wr = "write_records ?dp ?ip 0 (sorted_items seq_dict) (write_f ?ip h ?w1)"
  have res: "w' = close_w ?dp (close_w ?ip (fst ?wr))" "snd ?wr = Inr ()"
    using ok unfolding unf h by (simp_all add: case_prod_beta)
  show ft: "fits 0 (sorted_items seq_dict)"
    using res(2) by (simp add: write_records_ok)
  have ne_p: "?dp \<noteq> ?ip" by (rule paths_of_differ)
  have f_dp: "files (write_f ?ip h ?w1) ?dp = Some []"
    using ne_p by (simp add: write_f_files_other)
  have f_ip: "files (write_f ?ip h ?w1) ?ip = Some ([] @ h)"
    by (simp add: write_f_files_same)
  note wf = write_records_files [OF ft ne_p f_dp f_ip]
  show "files w' ?ip = Some (header_of ks (length seq_dict) @ records 0 (sorted_items seq_dict))"
    using wf by (simp add: res(1) hb(3))
  show "files w' ?dp = Some (data_of (sorted_items seq_dict))"
    using wf by (simp add: res(1))
  show "held w' = held w"
    using wf by (simp add: res(1))
  show "events w' = events w @ build_events ?dp ?ip ks (sorted_items seq_dict)"
    using wf by (simp add: res(1) hb(3) build_events_def sorted_items_def)
qed

lemma build_fits:
  assumes "seq_dict \<noteq> []" "keys_ok ks seq_dict" "ks < 256 ^ 4" "length seq_dict < 256 ^ 8"
    "fits 0 (sorted_items seq_dict)"
  shows "snd (build_sequence_store d b seq_dict w) = Inr ()"
proof -
  have h: "header_pack MAGIC ks (length seq_dict) = Inr (header_of ks (length seq_dict))"
    using assms(3,4) by (simp add: header_pack_Inr header_of_def)
  show ?thesis
    unfolding build_unfold [OF assms(1,2)] h
    using assms(5) by (simp add: case_prod_beta write_records_ok)
qed

section \<open>Reading the record array\<close>

lemma offset_at_0 [simp]: "offset_at off items 0 = off"
  by (simp add: offset_at_def)

lemma offset_at_Suc [simp]:
  "offset_at off ((key, sq) # rest) (Suc j) = offset_at (off + length (seq_bytes sq)) rest j"
  by (simp add: offset_at_def)

lemma flat_keys_Cons [simp]:
  "flat_keys ks ((key, sq) # rest) \<longleftrightarrow> length (bytes_of key) = ks \<and> flat_keys ks rest"
  by (simp add: flat_keys_def)

lemma flat_keys_Nil [simp]: "flat_keys ks []"
  by (simp add: flat_keys_def)

lemma length_records: "flat_keys ks items \<Longrightarrow> length (records off items) = length items * (ks + 12)"
  by (induction items arbitrary: off) auto

lemma drop_records:
  "flat_keys ks items \<Longrightarrow> i \<le> length items \<Longrightarrow>
   drop (i * (ks + 12)) (records off items) = records (offset_at off items i) (drop i items)"
proof (induction items arbitrary: i off)
  case Nil
  then show ?case by simp
next
  case (Cons kv items)
  obtain key sq where kv: "kv = (key, sq)" by (cases kv)
  show ?case
  proof (cases i)
    case 0
    then show ?thesis by simp
  next
    case (Suc j)
    have k: "length (bytes_of key) = ks" and rest: "flat_keys ks items" and j: "j \<le> length items"
      using Cons.prems by (simp_all add: kv Suc)
    have "drop (Suc j * (ks + 12)) (records off (kv # items)) =
          drop (j * (ks + 12)) (records (off + length (seq_bytes sq)) items)"
      by (simp add: kv k)
    also have "\<dots> = records (offset_at (off + length (seq_bytes sq)) items j) (drop j items)"
      by (rule Cons.IH [OF rest j])
    finally show ?thesis by (simp add: kv Suc)
  qed
qed

lemma records_at:
  assumes "flat_keys ks items" "i < length items"
  shows "drop (i * (ks + 12)) (records off items) =
           bytes_of (fst (items ! i)) @ le_bytes 8 (offset_at off items i) @
           le_bytes 4 (length (seq_bytes (snd (items ! i)))) @
           records (offset_at off items (Suc i)) (drop (Suc i) items)"
proof -
  have d: "drop i items = items ! i # drop (Suc i) items"
    using assms(2) by (simp add: Cons_nth_drop_Suc)
  have o: "offset_at off items (Suc i) = offset_at off items i + length (seq_bytes (snd (items ! i)))"
    using assms(2) by (simp add: offset_at_def take_Suc_conv_app_nth)
  show ?thesis
    using drop_records [OF assms(1), of i off] assms(2)
    by (cases "items ! i") (simp add: d o)
qed

lemma flat_keys_nth: "flat_keys ks items \<Longrightarrow> i < length items \<Longrightarrow>
  length (bytes_of (fst (items ! i))) = ks"
  by (simp add: flat_keys_def list_all_length)

lemma keys_ok_nth: "keys_ok ks items \<Longrightarrow> i < length items \<Longrightarrow> is_bytes (fst (items ! i))"
  by (simp add: keys_ok_def list_all_length)

lemma fits_nth:
  "fits off items \<Longrightarrow> i < length items \<Longrightarrow>
   offset_at off items i < 256 ^ 8 \<and> length (seq_bytes (snd (items ! i))) < 256 ^ 4 \<and>
   seq_bytes_of (snd (items ! i)) = Inr (seq_bytes (snd (items ! i)))"
proof (induction items arbitrary: off i)
  case Nil
  then show ?case by simp
next
  case (Cons kv items)
  obtain key sq where kv: "kv = (key, sq)" by (cases kv)
  from Cons.prems(1) obtain b where b: "seq_bytes_of sq = Inr b"
    and off: "off < 256 ^ 8" and lb: "length b < 256 ^ 4" and rest: "fits (off + length b) items"
    by (auto simp: kv split: sum.splits)
  have sb: "seq_bytes sq = b" by (simp add: seq_bytes_def b)
  show ?case
  proof (cases i)
    case 0
    then show ?thesis using off lb b sb by (simp add: kv)
  next
    case (Suc j)
    then have "j < length items" using Cons.prems(2) by simp
    from Cons.IH [OF rest this] show ?thesis by (simp add: kv Suc sb)
  qed
qed

lemma data_at:
  "i < length items \<Longrightarrow>
   take (length (seq_bytes (snd (items ! i)))) (drop (offset_at 0 items i) (data_of items)) =
     seq_bytes (snd (items ! i))"
proof -
  assume i: "i < length items"
  have "items = take i items @ items ! i # drop (Suc i) items"
    using i by (simp add: id_take_nth_drop)
  then have "data_of items = data_of (take i items) @ seq_bytes (snd (items ! i)) @ data_of (drop (Suc i) items)"
    unfolding data_of_def by (metis concat_append concat.simps(2) list.simps(9) map_append)
  moreover have "length (data_of (take i items)) = offset_at 0 items i"
    by (simp add: data_of_def offset_at_def length_concat comp_def)
  ultimately show ?thesis by simp
qed

section \<open>The binary search\<close>

declare find_index_loop.simps [simp del]

lemma find_index_loop_correct:
  assumes srt: "sorted_wrt (<) keys"
  shows "\<forall>i<length keys. key_at st (int i) = keys ! i \<Longrightarrow>
     0 \<le> lo \<Longrightarrow> hi < int (length keys) \<Longrightarrow>
     (if \<exists>j. lo \<le> int j \<and> int j \<le> hi \<and> keys ! j = kb
      then lo \<le> find_index_loop st kb lo hi \<and> find_index_loop st kb lo hi \<le> hi \<and>
           keys ! nat (find_index_loop st kb lo hi) = kb
      else find_index_loop st kb lo hi = - 1)"
proof (induction st kb lo hi rule: find_index_loop.induct)
  case (1 st kb lo hi)
  note rd = "1.prems"(1)
  show ?case
  proof (cases "lo \<le> hi")
    case False
    then have r: "find_index_loop st kb lo hi = - 1"
      by (subst find_index_loop.simps) simp
    have nex: "(\<exists>j. lo \<le> int j \<and> int j \<le> hi \<and> keys ! j = kb) = False"
      using False by auto
    show ?thesis unfolding nex r by simp
  next
    case True
    define mid where "mid = (lo + hi) div 2"
    have mid: "lo \<le> mid" "mid \<le> hi" "0 \<le> mid"
      using True "1.prems"(2) by (auto simp: mid_def)
    define m where "m = nat mid"
    have m: "int m = mid" "m < length keys"
      using mid "1.prems"(3) by (auto simp: m_def)
    have km: "key_at st mid = keys ! m"
      using rd m by (metis)
    show ?thesis
    proof (cases "keys ! m = kb")
      case eq: True
      have "find_index_loop st kb lo hi = mid"
        using True eq km by (subst find_index_loop.simps) (simp add: mid_def Let_def)
      moreover have "\<exists>j. lo \<le> int j \<and> int j \<le> hi \<and> keys ! j = kb"
        using mid m eq by (intro exI [of _ m]) simp
      ultimately show ?thesis using mid eq by (simp add: m_def)
    next
      case neq: False
      show ?thesis
      proof (cases "keys ! m < kb")
        case lt: True
        have step: "find_index_loop st kb lo hi = find_index_loop st kb (mid + 1) hi"
          using True neq lt km by (subst find_index_loop.simps) (simp add: mid_def Let_def)
        have IH: "if \<exists>j. mid + 1 \<le> int j \<and> int j \<le> hi \<and> keys ! j = kb
            then mid + 1 \<le> find_index_loop st kb (mid + 1) hi \<and>
                 find_index_loop st kb (mid + 1) hi \<le> hi \<and>
                 keys ! nat (find_index_loop st kb (mid + 1) hi) = kb
            else find_index_loop st kb (mid + 1) hi = - 1"
          using "1.IH"(1) [OF True mid_def refl _ _ rd] neq lt km mid "1.prems"(3) by simp
        have below: "\<not> (lo \<le> int j \<and> int j \<le> mid \<and> keys ! j = kb)" for j
        proof
          assume a: "lo \<le> int j \<and> int j \<le> mid \<and> keys ! j = kb"
          then have "j \<le> m" using m by simp
          then have "keys ! j \<le> keys ! m"
            using srt m(2) by (cases "j = m") (auto simp: sorted_wrt_iff_nth_less less_imp_le)
          with lt a show False by simp
        qed
        have ex: "(\<exists>j. lo \<le> int j \<and> int j \<le> hi \<and> keys ! j = kb) \<longleftrightarrow>
                  (\<exists>j. mid + 1 \<le> int j \<and> int j \<le> hi \<and> keys ! j = kb)"
        proof
          assume "\<exists>j. lo \<le> int j \<and> int j \<le> hi \<and> keys ! j = kb"
          then obtain j where j: "lo \<le> int j" "int j \<le> hi" "keys ! j = kb" by blast
          with below [of j] have "mid + 1 \<le> int j" by linarith
          with j show "\<exists>j. mid + 1 \<le> int j \<and> int j \<le> hi \<and> keys ! j = kb" by blast
        next
          assume "\<exists>j. mid + 1 \<le> int j \<and> int j \<le> hi \<and> keys ! j = kb"
          then obtain j where j: "mid + 1 \<le> int j" "int j \<le> hi" "keys ! j = kb" by blast
          with mid have "lo \<le> int j" by linarith
          with j show "\<exists>j. lo \<le> int j \<and> int j \<le> hi \<and> keys ! j = kb" by blast
        qed
        show ?thesis
          unfolding step ex using IH mid by (auto split: if_splits)
      next
        case nlt: False
        then have gt: "kb < keys ! m" using neq by simp
        have step: "find_index_loop st kb lo hi = find_index_loop st kb lo (mid - 1)"
          using True neq nlt km by (subst find_index_loop.simps) (simp add: mid_def Let_def)
        have IH: "if \<exists>j. lo \<le> int j \<and> int j \<le> mid - 1 \<and> keys ! j = kb
            then lo \<le> find_index_loop st kb lo (mid - 1) \<and>
                 find_index_loop st kb lo (mid - 1) \<le> mid - 1 \<and>
                 keys ! nat (find_index_loop st kb lo (mid - 1)) = kb
            else find_index_loop st kb lo (mid - 1) = - 1"
          using "1.IH"(2) [OF True mid_def refl _ _ rd] neq nlt km mid "1.prems"(2,3) by simp
        have above: "\<not> (mid \<le> int j \<and> int j \<le> hi \<and> keys ! j = kb)" for j
        proof
          assume a: "mid \<le> int j \<and> int j \<le> hi \<and> keys ! j = kb"
          then have "m \<le> j" "j < length keys" using m "1.prems"(3) by simp_all
          then have "keys ! m \<le> keys ! j"
            using srt by (cases "j = m") (auto simp: sorted_wrt_iff_nth_less less_imp_le)
          with gt a show False by simp
        qed
        have ex: "(\<exists>j. lo \<le> int j \<and> int j \<le> hi \<and> keys ! j = kb) \<longleftrightarrow>
                  (\<exists>j. lo \<le> int j \<and> int j \<le> mid - 1 \<and> keys ! j = kb)"
        proof
          assume "\<exists>j. lo \<le> int j \<and> int j \<le> hi \<and> keys ! j = kb"
          then obtain j where j: "lo \<le> int j" "int j \<le> hi" "keys ! j = kb" by blast
          with above [of j] have "int j \<le> mid - 1" by linarith
          with j show "\<exists>j. lo \<le> int j \<and> int j \<le> mid - 1 \<and> keys ! j = kb" by blast
        next
          assume "\<exists>j. lo \<le> int j \<and> int j \<le> mid - 1 \<and> keys ! j = kb"
          then obtain j where j: "lo \<le> int j" "int j \<le> mid - 1" "keys ! j = kb" by blast
          with mid have "int j \<le> hi" by linarith
          with j show "\<exists>j. lo \<le> int j \<and> int j \<le> hi \<and> keys ! j = kb" by blast
        qed
        show ?thesis
          unfolding step ex using IH mid by (auto split: if_splits)
      qed
    qed
  qed
qed

section \<open>The reader on the files of a build\<close>

lemma length_header_of [simp]: "length (header_of ks n) = 20"
  by (simp add: header_of_def)

lemma header_of_not_Nil [simp]: "header_of ks n \<noteq> []"
  by (simp add: header_of_def MAGIC_def)

lemma unpack_start_nat: "p + sz \<le> n \<Longrightarrow> n < 2 ^ 63 \<Longrightarrow> unpack_start sz n (int p) = Inr p"
  by (auto simp: unpack_start_def)

lemma acquire_simps [simp]:
  "files (acquire r w) = files w"
  "held (acquire r w) = held w @ [r]"
  "events (acquire r w) = events w"
  by (simp_all add: acquire_def)

lemma init_built:
  assumes "files w ip = Some (header_of ks (length items) @ records 0 items)"
    and "files w dp = Some (data_of items)"
    and "ks < 256 ^ 4" "length items < 256 ^ 8"
  shows "init ip dp w =
     (if data_of items = []
      then (acquire (Mm ip) (acquire (Fd dp) (acquire (Fd ip) w)),
            Inl (ValueError ''cannot mmap an empty file''))
      else (acquire (Mm dp) (acquire (Mm ip) (acquire (Fd dp) (acquire (Fd ip) w))),
            Inr (store_of ip dp ks items)))"
proof -
  have hu: "header_unpack_from (header_of ks (length items) @ records 0 items) 0 =
      Inr (MAGIC, ks, length items)"
    using header_unpack_from_0 [OF assms(3,4)] by (simp add: header_of_def)
  show ?thesis
    unfolding init_def using assms(1,2) by (simp add: Let_def hu store_of_def)
qed

lemma key_at_store:
  assumes "flat_keys ks items" "i < length items"
  shows "key_at (store_of ip dp ks items) (int i) = bytes_of (fst (items ! i))"
proof -
  have base: "int HEADER_SIZE + int i * int (ks + OFFSET_SIZE) = int (20 + i * (ks + 12))"
    by (simp add: HEADER_SIZE_def OFFSET_SIZE_def)
  have "key_at (store_of ip dp ks items) (int i) =
      take ks (drop (20 + i * (ks + 12)) (header_of ks (length items) @ records 0 items))"
    unfolding key_at_def Let_def store_of_def store.simps base by (rule py_slice_nat)
  also have "\<dots> = take ks (drop (i * (ks + 12)) (records 0 items))"
    by simp
  also have "\<dots> = bytes_of (fst (items ! i))"
    unfolding records_at [OF assms] using flat_keys_nth [OF assms] by simp
  finally show ?thesis .
qed

lemma offset_and_length_store:
  assumes "flat_keys ks items" "fits 0 items" "i < length items"
    and "20 + length items * (ks + 12) < 2 ^ 63"
  shows "offset_and_length (store_of ip dp ks items) (int i) =
           Inr (offset_at 0 items i, length (seq_bytes (snd (items ! i))))"
proof -
  let ?ib = "header_of ks (length items) @ records 0 items"
  let ?p = "20 + i * (ks + 12) + ks"
  have base: "int HEADER_SIZE + int i * int (ks + OFFSET_SIZE) + int ks = int ?p"
    by (simp add: HEADER_SIZE_def OFFSET_SIZE_def)
  have len: "length ?ib = 20 + length items * (ks + 12)"
    by (simp add: length_records [OF assms(1)])
  have "Suc i \<le> length items" using assms(3) by simp
  then have "Suc i * (ks + 12) \<le> length items * (ks + 12)"
    by (rule mult_le_mono1)
  then have room: "?p + 12 \<le> length ?ib"
    unfolding len by simp
  have small: "length ?ib < 2 ^ 63"
    unfolding len by (rule assms(4))
  have us: "unpack_start OFFSET_SIZE (length ?ib) (int ?p) = Inr ?p"
    unfolding OFFSET_SIZE_def by (rule unpack_start_nat [OF room small])
  have kl: "length (bytes_of (fst (items ! i))) = ks"
    by (rule flat_keys_nth [OF assms(1,3)])
  have d0: "drop ?p ?ib = drop ks (drop (i * (ks + 12)) (records 0 items))"
    by (simp add: add.commute)
  have d1: "drop ?p ?ib = le_bytes 8 (offset_at 0 items i) @
        le_bytes 4 (length (seq_bytes (snd (items ! i)))) @
        records (offset_at 0 items (Suc i)) (drop (Suc i) items)"
    unfolding d0 records_at [OF assms(1,3)] using kl by simp
  have d2: "drop (?p + 8) ?ib = le_bytes 4 (length (seq_bytes (snd (items ! i)))) @
        records (offset_at 0 items (Suc i)) (drop (Suc i) items)"
    using arg_cong [OF d1, of "drop 8"] by (simp add: add.commute)
  note f = fits_nth [OF assms(2,3)]
  show ?thesis
    unfolding offset_and_length_def Let_def store_of_def store.simps base
      offset_unpack_from_def us sum.case d1 d2
    using f by (simp add: le_val_le_bytes)
qed

section \<open>Lookups in a built store\<close>

lemma keys_ok_sorted_items [simp]: "keys_ok ks (sorted_items items) = keys_ok ks items"
  by (simp add: keys_ok_def sorted_items_def list_all_iff)

lemma flat_keys_sorted_items [simp]: "flat_keys ks (sorted_items items) = flat_keys ks items"
  by (simp add: flat_keys_def sorted_items_def list_all_iff)

lemma set_sorted_items [simp]: "set (sorted_items items) = set items"
  by (simp add: sorted_items_def)

lemma length_sorted_items [simp]: "length (sorted_items items) = length items"
  by (simp add: sorted_items_def)

lemma set_keys_of_sorted_items [simp]: "set (keys_of (sorted_items items)) = set (keys_of items)"
  by (simp add: keys_of_def)

lemma strictly_sorted_keys:
  assumes "distinct (keys_of items)"
  shows "sorted_wrt (<) (keys_of (sorted_items items))"
proof -
  have s: "sorted (keys_of (sorted_items items))"
    unfolding keys_of_def sorted_items_def by (rule sorted_sort_key)
  have "distinct items" "inj_on (\<lambda>kv. bytes_of (fst kv)) (set items)"
    using assms by (simp_all add: keys_of_def distinct_map)
  then have d: "distinct (keys_of (sorted_items items))"
    unfolding keys_of_def by (simp add: distinct_map sorted_items_def)
  show ?thesis using s d by (simp add: strict_sorted_iff)
qed

lemma find_index_hit:
  assumes fl: "flat_keys ks items" and srt: "sorted_wrt (<) (keys_of items)"
    and i: "i < length items" and q: "is_bytes q" "bytes_of q = bytes_of (fst (items ! i))"
  shows "find_index (store_of ip dp ks items) q = int i"
proof -
  let ?st = "store_of ip dp ks items"
  let ?kb = "bytes_of q"
  have rd: "\<forall>j<length (keys_of items). key_at ?st (int j) = keys_of items ! j"
    using key_at_store [OF fl] by (simp add: keys_of_def)
  have kq: "length ?kb = ks"
    using flat_keys_nth [OF fl i] q(2) by simp
  have fi: "find_index ?st q = find_index_loop ?st ?kb 0 (int (length items) - 1)"
    using kq q(1) by (simp add: find_index_def Let_def store_of_def)
  have ex: "\<exists>j. 0 \<le> int j \<and> int j \<le> int (length items) - 1 \<and> keys_of items ! j = ?kb"
    using i q(2) by (intro exI [of _ i]) (simp add: keys_of_def)
  have hi: "int (length items) - 1 < int (length (keys_of items))"
    by (simp add: keys_of_def)
  from find_index_loop_correct [OF srt rd _ hi, of 0 ?kb] ex
  have r: "0 \<le> find_index_loop ?st ?kb 0 (int (length items) - 1)"
       "find_index_loop ?st ?kb 0 (int (length items) - 1) \<le> int (length items) - 1"
       "keys_of items ! nat (find_index_loop ?st ?kb 0 (int (length items) - 1)) = ?kb"
    by simp_all
  define r where "r = nat (find_index_loop ?st ?kb 0 (int (length items) - 1))"
  have rl: "r < length items" "int r = find_index_loop ?st ?kb 0 (int (length items) - 1)"
    using r(1,2) by (simp_all add: r_def)
  have "keys_of items ! r = keys_of items ! i"
    using r(3) i q(2) by (simp add: r_def keys_of_def)
  moreover have "distinct (keys_of items)"
    using srt by (simp add: strict_sorted_iff)
  moreover have "length (keys_of items) = length items"
    by (simp add: keys_of_def)
  ultimately have "r = i"
    using rl(1) i by (simp add: nth_eq_iff_index_eq)
  then show ?thesis using fi rl(2) by simp
qed

lemma find_index_miss:
  assumes fl: "flat_keys ks items" and srt: "sorted_wrt (<) (keys_of items)"
    and q: "\<not> is_bytes q \<or> bytes_of q \<notin> set (keys_of items)"
  shows "find_index (store_of ip dp ks items) q = - 1"
proof (cases "is_bytes q \<and> length (bytes_of q) = ks")
  case False
  then show ?thesis by (auto simp: find_index_def Let_def store_of_def)
next
  case True
  let ?st = "store_of ip dp ks items"
  have rd: "\<forall>j<length (keys_of items). key_at ?st (int j) = keys_of items ! j"
    using key_at_store [OF fl] by (simp add: keys_of_def)
  have fi: "find_index ?st q = find_index_loop ?st (bytes_of q) 0 (int (length items) - 1)"
    using True by (simp add: find_index_def Let_def store_of_def)
  have hi: "int (length items) - 1 < int (length (keys_of items))"
    by (simp add: keys_of_def)
  have nex: "\<not> (\<exists>j. 0 \<le> int j \<and> int j \<le> int (length items) - 1 \<and> keys_of items ! j = bytes_of q)"
  proof
    assume "\<exists>j. 0 \<le> int j \<and> int j \<le> int (length items) - 1 \<and> keys_of items ! j = bytes_of q"
    then obtain j where j: "j < length (keys_of items)" "keys_of items ! j = bytes_of q"
      by (auto simp: keys_of_def)
    then have "bytes_of q \<in> set (keys_of items)" by (metis nth_mem)
    with q True show False by simp
  qed
  from find_index_loop_correct [OF srt rd _ hi, of 0 "bytes_of q"] nex
  show ?thesis unfolding fi by simp
qed

lemma get_hit:
  assumes ko: "keys_ok ks items" and fl: "flat_keys ks items"
    and srt: "sorted_wrt (<) (keys_of items)"
    and ft: "fits 0 items" and sz: "20 + length items * (ks + 12) < 2 ^ 63"
    and i: "i < length items"
  shows "get (store_of ip dp ks items) (fst (items ! i)) d =
     (case decode_ascii (seq_bytes (snd (items ! i))) of
        Inl e \<Rightarrow> Inl e | Inr s \<Rightarrow> Inr (PyStr s))"
proof -
  have sl: "py_slice (data_of items) (int (offset_at 0 items i))
       (int (offset_at 0 items i) + int (length (seq_bytes (snd (items ! i))))) =
     seq_bytes (snd (items ! i))"
    unfolding py_slice_nat by (rule data_at [OF i])
  have fi: "find_index (store_of ip dp ks items) (fst (items ! i)) = int i"
    by (rule find_index_hit [OF fl srt i keys_ok_nth [OF ko i] refl])
  show ?thesis
    unfolding get_def Let_def fi offset_and_length_store [OF fl ft i sz]
    using sl by (simp add: store_of_def)
qed

section \<open>Build, open and get together\<close>

lemma sum_list_insort_key:
  "sum_list (map f (insort_key g x xs)) = (f x :: nat) + sum_list (map f xs)"
  by (induction xs) simp_all

lemma sum_list_sort_key: "sum_list (map f (sort_key g xs)) = sum_list (map (f :: 'a \<Rightarrow> nat) xs)"
  by (induction xs) (simp_all add: sum_list_insort_key)

lemma fits_total:
  assumes "\<forall>kv \<in> set items. \<exists>b. seq_bytes_of (snd kv) = Inr b \<and> length b < 256 ^ 4"
    and "off + sum_list (map (\<lambda>kv. length (seq_bytes (snd kv))) items) < 256 ^ 8"
  shows "fits off items"
  using assms
proof (induction items arbitrary: off)
  case Nil
  then show ?case by simp
next
  case (Cons kv items)
  obtain key sq where kv: "kv = (key, sq)" by (cases kv)
  from Cons.prems(1) obtain b where b: "seq_bytes_of sq = Inr b" "length b < 256 ^ 4"
    by (auto simp: kv)
  have sb: "seq_bytes sq = b" by (simp add: seq_bytes_def b)
  have "fits (off + length b) items"
    using Cons.prems by (intro Cons.IH) (simp_all add: kv sb add.assoc)
  moreover have "off < 256 ^ 8" using Cons.prems(2) by simp
  ultimately show ?case using b by (simp add: kv)
qed

lemma built_store:
  assumes ok: "build_sequence_store d b seq_dict w = (w', Inr ())" and ne: "seq_dict \<noteq> []"
    and ko: "keys_ok ks seq_dict"
    and op: "init (index_path_of d b) (data_path_of d b) w' = (w'', Inr st)"
  shows "st = store_of (index_path_of d b) (data_path_of d b) ks (sorted_items seq_dict)"
proof -
  note B = build_Inr [OF ok ne ko]
  have "init (index_path_of d b) (data_path_of d b) w' =
     (if data_of (sorted_items seq_dict) = []
      then (acquire (Mm (index_path_of d b)) (acquire (Fd (data_path_of d b)) (acquire (Fd (index_path_of d b)) w')),
            Inl (ValueError ''cannot mmap an empty file''))
      else (acquire (Mm (data_path_of d b)) (acquire (Mm (index_path_of d b)) (acquire (Fd (data_path_of d b)) (acquire (Fd (index_path_of d b)) w'))),
            Inr (store_of (index_path_of d b) (data_path_of d b) ks (sorted_items seq_dict))))"
    using B(5,6) B(2,3) by (intro init_built) simp_all
  with op show ?thesis by (simp split: if_splits)
qed

lemma get_built:
  assumes ok: "build_sequence_store d b seq_dict w = (w', Inr ())" and ne: "seq_dict \<noteq> []"
    and ko: "keys_ok ks seq_dict" and fl: "flat_keys ks seq_dict"
    and dist: "distinct (keys_of seq_dict)"
    and sz: "20 + length seq_dict * (ks + 12) < 2 ^ 63"
    and op: "init (index_path_of d b) (data_path_of d b) w' = (w'', Inr st)"
    and kv: "kv \<in> set seq_dict"
  shows "get st (fst kv) dflt =
     (case decode_ascii (seq_bytes (snd kv)) of Inl e \<Rightarrow> Inl e | Inr s \<Rightarrow> Inr (PyStr s))"
    and "\<exists>i off. find_index st (fst kv) = int i \<and>
           offset_and_length st (int i) = Inr (off, length (seq_bytes (snd kv))) \<and>
           py_slice (data_mm st) (int off) (int off + int (length (seq_bytes (snd kv)))) =
             seq_bytes (snd kv)"
proof -
  note B = build_Inr [OF ok ne ko]
  let ?srt = "sorted_items seq_dict"
  have st: "st = store_of (index_path_of d b) (data_path_of d b) ks ?srt"
    by (rule built_store [OF ok ne ko op])
  have kos: "keys_ok ks ?srt" using ko by simp
  have fls: "flat_keys ks ?srt" using fl by simp
  have szs: "20 + length ?srt * (ks + 12) < 2 ^ 63" using sz by simp
  have ss: "sorted_wrt (<) (keys_of ?srt)" by (rule strictly_sorted_keys [OF dist])
  obtain i where i: "i < length ?srt" "?srt ! i = kv"
    using kv by (metis in_set_conv_nth set_sorted_items)
  show "get st (fst kv) dflt =
     (case decode_ascii (seq_bytes (snd kv)) of Inl e \<Rightarrow> Inl e | Inr s \<Rightarrow> Inr (PyStr s))"
    using get_hit [OF kos fls ss B(4) szs i(1), of "index_path_of d b" "data_path_of d b" dflt]
    by (simp add: st i(2))
  have "find_index st (fst kv) = int i"
    using find_index_hit [OF fls ss i(1) keys_ok_nth [OF kos i(1)] refl] by (simp add: st i(2))
  moreover have "offset_and_length st (int i) =
      Inr (offset_at 0 ?srt i, length (seq_bytes (snd kv)))"
    using offset_and_length_store [OF fls B(4) i(1) szs] by (simp add: st i(2))
  moreover have "py_slice (data_mm st) (int (offset_at 0 ?srt i))
       (int (offset_at 0 ?srt i) + int (length (seq_bytes (snd kv)))) = seq_bytes (snd kv)"
    unfolding py_slice_nat using data_at [OF i(1)] by (simp add: st store_of_def i(2))
  ultimately show "\<exists>i off. find_index st (fst kv) = int i \<and>
           offset_and_length st (int i) = Inr (off, length (seq_bytes (snd kv))) \<and>
           py_slice (data_mm st) (int off) (int off + int (length (seq_bytes (snd kv)))) =
             seq_bytes (snd kv)"
    by blast
qed

lemma contains_built:
  assumes ok: "build_sequence_store d b seq_dict w = (w', Inr ())" and ne: "seq_dict \<noteq> []"
    and ko: "keys_ok ks seq_dict" and fl: "flat_keys ks seq_dict"
    and dist: "distinct (keys_of seq_dict)"
    and op: "init (index_path_of d b) (data_path_of d b) w' = (w'', Inr st)"
  shows "contains st q \<longleftrightarrow> is_bytes q \<and> bytes_of q \<in> set (keys_of seq_dict)"
proof -
  let ?srt = "sorted_items seq_dict"
  have st: "st = store_of (index_path_of d b) (data_path_of d b) ks ?srt"
    by (rule built_store [OF ok ne ko op])
  have fls: "flat_keys ks ?srt" using fl by simp
  have ss: "sorted_wrt (<) (keys_of ?srt)" by (rule strictly_sorted_keys [OF dist])
  show ?thesis
  proof (cases "is_bytes q \<and> bytes_of q \<in> set (keys_of seq_dict)")
    case True
    then have "bytes_of q \<in> set (keys_of ?srt)" by simp
    then obtain i where "i < length (keys_of ?srt)" "keys_of ?srt ! i = bytes_of q"
      by (metis in_set_conv_nth)
    then have i: "i < length ?srt" "bytes_of q = bytes_of (fst (?srt ! i))"
      by (simp_all add: keys_of_def)
    have "find_index st q = int i"
      unfolding st using True by (intro find_index_hit [OF fls ss i(1) _ i(2)]) simp
    with True show ?thesis by (simp add: contains_def)
  next
    case False
    then have "\<not> is_bytes q \<or> bytes_of q \<notin> set (keys_of ?srt)" by simp
    from find_index_miss [OF fls ss this] have "find_index st q = - 1" by (simp add: st)
    with False show ?thesis by (simp add: contains_def)
  qed
qed

lemma build_and_open:
  assumes ne: "seq_dict \<noteq> []" and ko: "keys_ok ks seq_dict"
    and sz: "ks < 256 ^ 4" "length seq_dict < 256 ^ 8"
    and vals: "\<forall>kv \<in> set seq_dict. \<exists>b. seq_bytes_of (snd kv) = Inr b \<and> length b < 256 ^ 4"
    and total: "sum_list (map (\<lambda>kv. length (seq_bytes (snd kv))) seq_dict) < 256 ^ 8"
    and some: "\<exists>kv \<in> set seq_dict. seq_bytes (snd kv) \<noteq> []"
  shows "\<exists>w' w'' st. build_sequence_store d b seq_dict w = (w', Inr ()) \<and>
           init (index_path_of d b) (data_path_of d b) w' = (w'', Inr st)"
proof -
  have ft: "fits 0 (sorted_items seq_dict)"
    using vals total by (intro fits_total) (simp_all add: sorted_items_def sum_list_sort_key)
  have "snd (build_sequence_store d b seq_dict w) = Inr ()"
    by (rule build_fits [OF ne ko sz ft])
  then obtain w' where ok: "build_sequence_store d b seq_dict w = (w', Inr ())"
    by (metis prod.collapse)
  note B = build_Inr [OF ok ne ko]
  have "data_of (sorted_items seq_dict) \<noteq> []"
    using some by (auto simp: data_of_def)
  then have "init (index_path_of d b) (data_path_of d b) w' =
      (acquire (Mm (data_path_of d b)) (acquire (Mm (index_path_of d b)) (acquire (Fd (data_path_of d b)) (acquire (Fd (index_path_of d b)) w'))),
            Inr (store_of (index_path_of d b) (data_path_of d b) ks (sorted_items seq_dict)))"
    using init_built [of w' "index_path_of d b" ks "sorted_items seq_dict" "data_path_of d b"]
      B(5,6) B(2,3) by simp
  with ok show ?thesis by blast
qed

section \<open>Evaluating the code on sample inputs\<close>

lemma le_bytes_4:
  "le_bytes 4 v = [of_nat (v mod 256), of_nat (v div 256 mod 256),
     of_nat (v div 256 div 256 mod 256), of_nat (v div 256 div 256 div 256 mod 256)]"
proof -
  have h: "(4::nat) = Suc (Suc (Suc (Suc 0)))" by simp
  show ?thesis by (simp only: h le_bytes.simps)
qed

lemma le_bytes_add: "le_bytes (m + n) v = le_bytes m v @ le_bytes n (v div 256 ^ m)"
  by (induction m arbitrary: v) (simp_all add: div_mult2_eq)

lemma le_bytes_8: "le_bytes 8 v = le_bytes 4 v @ le_bytes 4 (v div 4294967296)"
  using le_bytes_add [of 4 4 v] by simp

lemmas build_eval =
  build_sequence_store_def Let_def path_join_def header_pack_def pack_uint_def offset_pack_def
  seq_bytes_of_def encode_ascii_def open_wb_def write_f_def close_w_def MAGIC_def pack_8s_def
  le_bytes_4 le_bytes_8 empty_world_def index_path_of_def data_path_of_def

lemmas init_eval =
  init_def acquire_def header_unpack_from_def unpack_start_def HEADER_SIZE_def OFFSET_SIZE_def

lemmas get_eval =
  get_def getitem_def contains_def find_index_def find_index_loop.simps key_at_def py_slice_def
  slice_bound_def offset_and_length_def offset_unpack_from_def decode_ascii_def
  unpack_start_def HEADER_SIZE_def OFFSET_SIZE_def

section \<open>Values in the ASCII range\<close>

lemma of_nat_ascii: "c < 128 \<Longrightarrow> (of_nat c :: byte) < 128 \<and> unat (of_nat c :: byte) = c"
proof -
  assume c: "c < 128"
  then have u: "unat (of_nat c :: byte) = c" by (simp add: unat_of_nat)
  then have "(of_nat c :: byte) < 128" using c by (simp add: word_less_nat_alt)
  with u show ?thesis by simp
qed

lemma ascii_value_bytes:
  assumes "ascii_value v"
  shows "seq_bytes_of v = Inr (seq_bytes v)"
    and "length (seq_bytes v) = length (content v)"
    and "decode_ascii (seq_bytes v) = Inr (content v)"
proof -
  show "seq_bytes_of v = Inr (seq_bytes v)"
    using assms by (cases v) (simp_all add: seq_bytes_of_def seq_bytes_def encode_ascii_def)
  show "length (seq_bytes v) = length (content v)"
    using assms by (cases v) (simp_all add: seq_bytes_of_def seq_bytes_def encode_ascii_def)
  show "decode_ascii (seq_bytes v) = Inr (content v)"
  proof (cases v)
    case (PyBytes bs)
    then show ?thesis using assms by (simp add: seq_bytes_of_def seq_bytes_def decode_ascii_def)
  next
    case (PyView n bs)
    then show ?thesis using assms by (simp add: seq_bytes_of_def seq_bytes_def decode_ascii_def)
  next
    case (PyStr s)
    then have a: "\<forall>c \<in> set s. c < 128" using assms by (simp add: list_all_iff)
    then have "list_all (\<lambda>x. x < 128) (map of_nat s :: byte list)"
      by (simp add: list_all_iff of_nat_ascii)
    moreover have "map unat (map of_nat s :: byte list) = s"
      using a by (simp add: map_idI of_nat_ascii)
    ultimately show ?thesis
      using assms PyStr by (simp add: seq_bytes_of_def seq_bytes_def encode_ascii_def decode_ascii_def)
  next
    case PyNone
    then show ?thesis using assms by simp
  qed
qed

section \<open>Round trip\<close>

lemma key_hypotheses:
  assumes "\<forall>kv \<in> set seq_dict.
             is_bytes (fst kv) \<and> py_len (fst kv) = Inr ks \<and> length (bytes_of (fst kv)) = ks"
  shows "keys_ok ks seq_dict" and "flat_keys ks seq_dict"
  using assms by (simp_all add: keys_ok_def flat_keys_def list_all_iff)

lemma index_size_count:
  assumes "20 + length seq_dict * (ks + 12) < (2::nat) ^ 63"
  shows "length seq_dict < 256 ^ 8"
proof -
  have a: "length seq_dict \<le> length seq_dict * (ks + 12)" by simp
  have b: "(2::nat) ^ 63 \<le> 256 ^ 8" by simp
  show ?thesis using a b assms by linarith
qed

text \<open>
  Claim C1, as amended. Take a non-empty mapping whose keys are bytes-like objects whose
  \<^verbatim>\<open>len\<close> is the number \<open>ks\<close> of their bytes (as for every \<^verbatim>\<open>bytes\<close> key), no two keys
  with the same bytes; whose values are text or byte sequences with every character or
  byte in 0 to 127, at least one of them not empty; and whose sizes fit the format (key
  length and each value length below \<open>2^32\<close>, total length of the values below \<open>2^64\<close>,
  index file below \<open>2^63\<close> bytes). Provided the operating system performs the opens and
  the writes, the build succeeds, the reader opens the two files, and \<^verbatim>\<open>get\<close> on every
  key returns the content of its value as text, whatever the default.
\<close>

theorem roundtrip_ascii_values:
  assumes ne: "seq_dict \<noteq> []"
    and keys: "\<forall>kv \<in> set seq_dict.
             is_bytes (fst kv) \<and> py_len (fst kv) = Inr ks \<and> length (bytes_of (fst kv)) = ks"
    and dist: "distinct (map (\<lambda>kv. bytes_of (fst kv)) seq_dict)"
    and vals: "\<forall>kv \<in> set seq_dict. ascii_value (snd kv) \<and> length (content (snd kv)) < 2 ^ 32"
    and some: "\<exists>kv \<in> set seq_dict. content (snd kv) \<noteq> []"
    and sizes: "ks < 2 ^ 32" "20 + length seq_dict * (ks + 12) < 2 ^ 63"
      "sum_list (map (\<lambda>kv. length (content (snd kv))) seq_dict) < 2 ^ 64"
  shows "\<exists>w' w'' st.
           build_sequence_store index_folder basename seq_dict w = (w', Inr ()) \<and>
           init (index_path_of index_folder basename) (data_path_of index_folder basename) w' =
             (w'', Inr st) \<and>
           (\<forall>kv \<in> set seq_dict. \<forall>dflt. get st (fst kv) dflt = Inr (PyStr (content (snd kv))))"
proof -
  note ko = key_hypotheses(1) [OF keys] and fl = key_hypotheses(2) [OF keys]
  have dk: "distinct (keys_of seq_dict)" using dist by (simp add: keys_of_def)
  have n: "length seq_dict < 256 ^ 8" by (rule index_size_count [OF sizes(2)])
  have v: "\<forall>kv \<in> set seq_dict. \<exists>b. seq_bytes_of (snd kv) = Inr b \<and> length b < 256 ^ 4"
    using vals by (auto simp: ascii_value_bytes)
  have eq: "map (\<lambda>kv. length (seq_bytes (snd kv))) seq_dict =
        map (\<lambda>kv. length (content (snd kv))) seq_dict"
    using vals by (intro map_cong) (simp_all add: ascii_value_bytes)
  have t: "sum_list (map (\<lambda>kv. length (seq_bytes (snd kv))) seq_dict) < 256 ^ 8"
    unfolding eq using sizes(3) by simp
  have s: "\<exists>kv \<in> set seq_dict. seq_bytes (snd kv) \<noteq> []"
    using some vals by (metis ascii_value_bytes(2) length_0_conv)
  from build_and_open [OF ne ko _ n v t s, of index_folder basename w] sizes(1)
  obtain w' w'' st where
    ok: "build_sequence_store index_folder basename seq_dict w = (w', Inr ())" and
    op: "init (index_path_of index_folder basename) (data_path_of index_folder basename) w' = (w'', Inr st)"
    by auto
  have "get st (fst kv) dflt = Inr (PyStr (content (snd kv)))" if "kv \<in> set seq_dict" for kv dflt
    using get_built(1) [OF ok ne ko fl dk sizes(2) op that, of dflt] vals that
    by (simp add: ascii_value_bytes)
  with ok op show ?thesis by blast
qed

theorem roundtrip_ascii_values_witness:
  "\<exists>w' w'' st.
     build_sequence_store ''out'' ''seqs'' spec_entries empty_world = (w', Inr ()) \<and>
     init (index_path_of ''out'' ''seqs'') (data_path_of ''out'' ''seqs'') w' = (w'', Inr st) \<and>
     get st (PyBytes [77, 77, 77, 77]) PyNone = Inr (PyStr [109, 105, 100]) \<and>
     get st (PyBytes [65, 65, 65, 65]) PyNone = Inr (PyStr [104, 101, 108, 108, 111]) \<and>
     get st (PyBytes [90, 90, 90, 90]) PyNone = Inr (PyStr [119, 111, 114, 108, 100])"
  using roundtrip_ascii_values [of spec_entries 4 "''out''" "''seqs''" empty_world]
  by (simp add: spec_entries_def) blast

text \<open>
  Without these conditions the round trip fails. A text value with the character 233
  makes the build raise \<^verbatim>\<open>UnicodeEncodeError\<close>. A mapping whose only value is empty builds
  an empty data file, which \<^verbatim>\<open>mmap\<close> refuses to map. A value of \<open>2^32\<close> bytes does not
  fit the length field. For the key \<^verbatim>\<open>memoryview(b"abcd").cast("B", shape=[2, 2])\<close>, of
  \<^verbatim>\<open>len\<close> 2 and 4 bytes, the build and the open succeed and \<^verbatim>\<open>get\<close> returns the default.
  For \<^verbatim>\<open>{b"\x80": "A", memoryview(b"\x80").cast("b"): "B"}\<close>, \<^verbatim>\<open>get\<close> on the second key
  returns the value of the first.
\<close>

theorem roundtrip_counterexample:
  "snd (build_sequence_store ''out'' ''seqs'' [(PyBytes [1], PyStr [233])] empty_world) =
     Inl UnicodeEncodeError \<and>
   snd (build_sequence_store ''out'' ''seqs'' [(PyBytes [1], PyStr [])] empty_world) = Inr () \<and>
   snd (init ''out/seqs.mmidx'' ''out/seqs.mmdata''
          (fst (build_sequence_store ''out'' ''seqs'' [(PyBytes [1], PyStr [])] empty_world))) =
     Inl (ValueError ''cannot mmap an empty file'') \<and>
   snd (build_sequence_store ''out'' ''seqs'' [(PyBytes [1], PyBytes (replicate (2 ^ 32) 0))]
          empty_world) = Inl StructError \<and>
   snd (init ''out/seqs.mmidx'' ''out/seqs.mmdata''
          (fst (build_sequence_store ''out'' ''seqs''
                 [(PyView (Some 2) [97, 98, 99, 100], PyStr [65])] empty_world))) =
     Inr view_store \<and>
   get view_store (PyView (Some 2) [97, 98, 99, 100]) (PyStr [63]) = Inr (PyStr [63]) \<and>
   snd (init ''out/seqs.mmidx'' ''out/seqs.mmdata''
          (fst (build_sequence_store ''out'' ''seqs''
                 [(PyBytes [128], PyStr [65]), (PyView (Some 1) [128], PyStr [66])] empty_world))) =
     Inr dup_store \<and>
   get dup_store (PyView (Some 1) [128]) PyNone = Inr (PyStr [65])"
  by (simp add: build_eval init_eval get_eval view_store_def dup_store_def)

section \<open>Lookup\<close>

text \<open>
  Claim C2 says that \<^verbatim>\<open>__contains__\<close> is true of every key the store was built from. The
  code breaks it for a key whose \<^verbatim>\<open>len\<close> is not the number of its bytes. For
  \<^verbatim>\<open>{memoryview(b"abcd").cast("B", shape=[2, 2]): "A"}\<close> the builder takes the key size 2
  from \<^verbatim>\<open>len(first_key)\<close> and writes the 4 bytes of \<^verbatim>\<open>bytes(key)\<close>; the build and the open
  succeed; the reader compares the 4 bytes of the query with the key size 2, so
  \<^verbatim>\<open>_find_index\<close> gives \<open>-1\<close> and \<^verbatim>\<open>key in store\<close> is false for the one key of the
  mapping.
\<close>

theorem contains_misses_view_key:
  "snd (build_sequence_store ''out'' ''seqs''
          [(PyView (Some 2) [97, 98, 99, 100], PyStr [65])] empty_world) = Inr () \<and>
   snd (init ''out/seqs.mmidx'' ''out/seqs.mmdata''
          (fst (build_sequence_store ''out'' ''seqs''
                 [(PyView (Some 2) [97, 98, 99, 100], PyStr [65])] empty_world))) =
     Inr view_store \<and>
   find_index view_store (PyView (Some 2) [97, 98, 99, 100]) = - 1 \<and>
   \<not> contains view_store (PyView (Some 2) [97, 98, 99, 100])"
  by (simp add: build_eval init_eval get_eval view_store_def)

section \<open>Bytes outside the ASCII range\<close>

text \<open>
  Claim C3, as amended. Let a mapping that the builder serves (keys whose \<^verbatim>\<open>len\<close> is the
  number \<open>ks\<close> of their bytes, no two keys with the same bytes, values that are ASCII text
  or byte sequences, sizes that fit the format) hold a byte-sequence value \<open>bs\<close> with a
  byte of 128 or more. Provided the operating system performs the opens and the writes,
  the build succeeds, the reader opens the files, the record of the key holds the length
  of \<open>bs\<close>, and the data mapping holds \<open>bs\<close> unchanged at the record's offset. But
  \<^verbatim>\<open>get\<close> on the key raises \<^verbatim>\<open>UnicodeDecodeError\<close>: it decodes every value as ASCII.
\<close>

theorem high_bytes_stored_but_not_decoded:
  assumes ne: "seq_dict \<noteq> []"
    and keys: "\<forall>kv \<in> set seq_dict.
             is_bytes (fst kv) \<and> py_len (fst kv) = Inr ks \<and> length (bytes_of (fst kv)) = ks"
    and dist: "distinct (map (\<lambda>kv. bytes_of (fst kv)) seq_dict)"
    and vals: "\<forall>kv \<in> set seq_dict. \<exists>b. seq_bytes_of (snd kv) = Inr b \<and> length b < 2 ^ 32"
    and sizes: "ks < 2 ^ 32" "20 + length seq_dict * (ks + 12) < 2 ^ 63"
      "sum_list (map (\<lambda>kv. length (seq_bytes (snd kv))) seq_dict) < 2 ^ 64"
    and mem: "(key, PyBytes bs) \<in> set seq_dict"
    and high: "\<exists>x \<in> set bs. 128 \<le> x"
  shows "\<exists>w' w'' st i off.
           build_sequence_store index_folder basename seq_dict w = (w', Inr ()) \<and>
           init (index_path_of index_folder basename) (data_path_of index_folder basename) w' =
             (w'', Inr st) \<and>
           find_index st key = int i \<and>
           offset_and_length st (int i) = Inr (off, length bs) \<and>
           py_slice (data_mm st) (int off) (int off + int (length bs)) = bs \<and>
           (\<forall>dflt. get st key dflt = Inl UnicodeDecodeError)"
proof -
  note ko = key_hypotheses(1) [OF keys] and fl = key_hypotheses(2) [OF keys]
  have dk: "distinct (keys_of seq_dict)" using dist by (simp add: keys_of_def)
  have n: "length seq_dict < 256 ^ 8" by (rule index_size_count [OF sizes(2)])
  have sb: "seq_bytes (PyBytes bs) = bs"
    by (simp add: seq_bytes_def seq_bytes_of_def)
  have "bs \<noteq> []" using high by auto
  then have s: "\<exists>kv \<in> set seq_dict. seq_bytes (snd kv) \<noteq> []"
    using mem sb by force
  from build_and_open [OF ne ko _ n _ _ s, of index_folder basename w] vals sizes(1,3)
  obtain w' w'' st where
    ok: "build_sequence_store index_folder basename seq_dict w = (w', Inr ())" and
    op: "init (index_path_of index_folder basename) (data_path_of index_folder basename) w' = (w'', Inr st)"
    by auto
  have dec: "decode_ascii bs = Inl UnicodeDecodeError"
    using high by (auto simp: decode_ascii_def list_all_iff not_less)
  have g: "get st key dflt = Inl UnicodeDecodeError" for dflt
    using get_built(1) [OF ok ne ko fl dk sizes(2) op mem, of dflt] by (simp add: sb dec)
  from get_built(2) [OF ok ne ko fl dk sizes(2) op mem] obtain i off where
    "find_index st key = int i"
    "offset_and_length st (int i) = Inr (off, length bs)"
    "py_slice (data_mm st) (int off) (int off + int (length bs)) = bs"
    by (auto simp: sb)
  with ok op g show ?thesis by blast
qed

theorem high_bytes_stored_but_not_decoded_witness:
  "\<exists>w' w'' st i off.
     build_sequence_store ''out'' ''seqs'' [(PyBytes [7], PyBytes [200, 65]), (PyBytes [3], PyStr [66])]
       empty_world = (w', Inr ()) \<and>
     init (index_path_of ''out'' ''seqs'') (data_path_of ''out'' ''seqs'') w' = (w'', Inr st) \<and>
     find_index st (PyBytes [7]) = int i \<and>
     offset_and_length st (int i) = Inr (off, 2) \<and>
     py_slice (data_mm st) (int off) (int off + 2) = [200, 65] \<and>
     get st (PyBytes [7]) PyNone = Inl UnicodeDecodeError"
proof -
  have "\<exists>w' w'' st i off.
     build_sequence_store ''out'' ''seqs'' [(PyBytes [7], PyBytes [200, 65]), (PyBytes [3], PyStr [66])]
       empty_world = (w', Inr ()) \<and>
     init (index_path_of ''out'' ''seqs'') (data_path_of ''out'' ''seqs'') w' = (w'', Inr st) \<and>
     find_index st (PyBytes [7]) = int i \<and>
     offset_and_length st (int i) = Inr (off, length [200, 65 :: byte]) \<and>
     py_slice (data_mm st) (int off) (int off + int (length [200, 65 :: byte])) = [200, 65] \<and>
     (\<forall>dflt. get st (PyBytes [7]) dflt = Inl UnicodeDecodeError)"
    by (rule high_bytes_stored_but_not_decoded [where ks = 1])
       (simp_all add: seq_bytes_of_def seq_bytes_def encode_ascii_def)
  then obtain w' w'' st i off where
    "build_sequence_store ''out'' ''seqs'' [(PyBytes [7], PyBytes [200, 65]), (PyBytes [3], PyStr [66])]
       empty_world = (w', Inr ())"
    "init (index_path_of ''out'' ''seqs'') (data_path_of ''out'' ''seqs'') w' = (w'', Inr st)"
    "find_index st (PyBytes [7]) = int i"
    "offset_and_length st (int i) = Inr (off, 2)"
    "py_slice (data_mm st) (int off) (int off + 2) = [200, 65]"
    "get st (PyBytes [7]) PyNone = Inl UnicodeDecodeError"
    by auto
  then show ?thesis by blast
qed

text \<open>The value \<^verbatim>\<open>b"\xff"\<close> is stored, and \<^verbatim>\<open>get\<close> on its key does not return it.\<close>

theorem high_bytes_counterexample:
  "snd (build_sequence_store ''out'' ''seqs'' [(PyBytes [1], PyBytes [255])] empty_world) = Inr () \<and>
   snd (init ''out/seqs.mmidx'' ''out/seqs.mmdata''
          (fst (build_sequence_store ''out'' ''seqs'' [(PyBytes [1], PyBytes [255])] empty_world))) =
     Inr single_store \<and>
   get single_store (PyBytes [1]) PyNone = Inl UnicodeDecodeError"
  by (simp add: build_eval init_eval get_eval single_store_def)

section \<open>Bad magic\<close>

text \<open>
  Claim C4, as amended. When the index file has at least the 20 bytes of a header, its
  first 8 bytes differ from the magic tag, and the data file exists and is not empty,
  \<^verbatim>\<open>__init__\<close> raises a \<^verbatim>\<open>ValueError\<close> whose message ends with the index path. The
  constructor releases nothing: the two file handles and the two mappings it has
  acquired are still held when the error is raised.
\<close>

theorem init_bad_magic:
  assumes "files w index_path = Some ib" and "files w data_path = Some db"
    and "db \<noteq> []" and "20 \<le> length ib" and "take 8 ib \<noteq> MAGIC"
  shows "init index_path data_path w =
           (w\<lparr>held := held w @ [Fd index_path, Fd data_path, Mm index_path, Mm data_path]\<rparr>,
            Inl (ValueError (''Invalid mmap index file magic: '' @ index_path)))"
proof -
  have "ib \<noteq> []" using assms(4) by auto
  moreover have "header_unpack_from ib 0 =
      Inr (take 8 ib, le_val (take 4 (drop 8 ib)), le_val (take 8 (drop 12 ib)))"
    using assms(4) by (simp add: header_unpack_from_def unpack_start_def HEADER_SIZE_def)
  ultimately show ?thesis
    using assms(1,2,3,5) by (simp add: init_def Let_def acquire_def)
qed

theorem init_bad_magic_witness:
  "init ''bad.mmidx'' ''bad.mmdata'' bad_magic_world =
     (bad_magic_world\<lparr>held := held bad_magic_world @
        [Fd ''bad.mmidx'', Fd ''bad.mmdata'', Mm ''bad.mmidx'', Mm ''bad.mmdata'']\<rparr>,
      Inl (ValueError ''Invalid mmap index file magic: bad.mmidx''))"
  using init_bad_magic [of bad_magic_world "''bad.mmidx''"
      "[88, 76, 84, 82, 65, 77, 77, 49, 4, 0, 0, 0, 0, 0, 0, 0, 0, 0, 0, 0]" "''bad.mmdata''" "[65]"]
  by (simp add: bad_magic_world_def MAGIC_def)

text \<open>
  On a 20-byte index file that starts with \<^verbatim>\<open>X\<close> instead of \<^verbatim>\<open>U\<close>, both mappings are
  open after the failure; on an index file of nine bytes the error is the
  \<^verbatim>\<open>struct.error\<close> of the header read, which does not name the path.
\<close>

theorem init_bad_magic_counterexample:
  "snd (init ''bad.mmidx'' ''bad.mmdata'' bad_magic_world) =
     Inl (ValueError ''Invalid mmap index file magic: bad.mmidx'') \<and>
   held (fst (init ''bad.mmidx'' ''bad.mmdata'' bad_magic_world)) =
     [Fd ''bad.mmidx'', Fd ''bad.mmdata'', Mm ''bad.mmidx'', Mm ''bad.mmdata''] \<and>
   snd (init ''short.mmidx'' ''bad.mmdata'' bad_magic_world) = Inl StructError"
  by (simp add: init_eval bad_magic_world_def Let_def MAGIC_def)

section \<open>Closing\<close>

lemma close_without_failure:
  "close (\<lambda>r. False) st w =
     (w\<lparr>held := remove1 (Fd (data_fd st)) (remove1 (Mm (data_fd st))
                 (remove1 (Fd (index_fd st)) (remove1 (Mm (index_fd st)) (held w))))\<rparr>,
      None)"
  by (simp add: close_def try_finally_def release_def)

text \<open>
  Claim C5 says that \<^verbatim>\<open>close()\<close> releases the data mapping and the data file handle even
  when the release of the index mapping or of the index file handle raises. The code does
  not. The reader opened on the files of \<^verbatim>\<open>{b"\x01": b"\xff"}\<close> holds four resources.
  When the release of the index mapping raises, \<^verbatim>\<open>close()\<close> still releases the index file
  handle (the \<^verbatim>\<open>finally\<close> clause), then the error leaves the method: the second
  \<^verbatim>\<open>try\<close> statement is not reached, and the data mapping and the data file handle stay
  open.
\<close>

theorem close_index_failure_keeps_data_open:
  "snd (init ''out/seqs.mmidx'' ''out/seqs.mmdata''
          (fst (build_sequence_store ''out'' ''seqs'' [(PyBytes [1], PyBytes [255])] empty_world))) =
     Inr single_store \<and>
   held single_world =
     [Fd ''out/seqs.mmidx'', Fd ''out/seqs.mmdata'', Mm ''out/seqs.mmidx'', Mm ''out/seqs.mmdata''] \<and>
   snd (close (\<lambda>r. r = Mm ''out/seqs.mmidx'') single_store single_world) =
     Some (CloseError (Mm ''out/seqs.mmidx'')) \<and>
   held (fst (close (\<lambda>r. r = Mm ''out/seqs.mmidx'') single_store single_world)) =
     [Fd ''out/seqs.mmdata'', Mm ''out/seqs.mmidx'', Mm ''out/seqs.mmdata'']"
proof -
  have h: "held single_world =
     [Fd ''out/seqs.mmidx'', Fd ''out/seqs.mmdata'', Mm ''out/seqs.mmidx'', Mm ''out/seqs.mmdata'']"
    by (simp add: single_world_def build_eval init_eval)
  have o: "snd (init ''out/seqs.mmidx'' ''out/seqs.mmdata''
          (fst (build_sequence_store ''out'' ''seqs'' [(PyBytes [1], PyBytes [255])] empty_world))) =
     Inr single_store"
    by (simp add: build_eval init_eval single_store_def)
  show ?thesis
    by (simp add: h o close_def try_finally_def release_def single_store_def)
qed

section \<open>Invalid keys\<close>

text \<open>
  Claim C6 says that the builder fails, before any file is written, when two keys differ
  in length. The code compares \<^verbatim>\<open>len(key)\<close>, not the number of bytes that it writes for
  the key (the reader does compare \<^verbatim>\<open>len(bytes(key))\<close>). For
  \<^verbatim>\<open>{b"xy": "A", memoryview(b"abcd").cast("B", shape=[2, 2]): "B"}\<close> the keys have 2 and 4
  bytes and both have \<^verbatim>\<open>len\<close> 2: the builder raises nothing and writes both files, with
  the key size 2 in the header, a record with a key of 4 bytes and a record with a key of
  2 bytes.
\<close>

theorem build_accepts_keys_of_different_size:
  "length (bytes_of (PyBytes [120, 121])) \<noteq> length (bytes_of (PyView (Some 2) [97, 98, 99, 100])) \<and>
   snd (build_sequence_store ''out'' ''seqs''
          [(PyBytes [120, 121], PyStr [65]), (PyView (Some 2) [97, 98, 99, 100], PyStr [66])]
          empty_world) = Inr () \<and>
   files (fst (build_sequence_store ''out'' ''seqs''
          [(PyBytes [120, 121], PyStr [65]), (PyView (Some 2) [97, 98, 99, 100], PyStr [66])]
          empty_world)) ''out/seqs.mmdata'' = Some [66, 65] \<and>
   files (fst (build_sequence_store ''out'' ''seqs''
          [(PyBytes [120, 121], PyStr [65]), (PyView (Some 2) [97, 98, 99, 100], PyStr [66])]
          empty_world)) ''out/seqs.mmidx'' =
     Some [85, 76, 84, 82, 65, 77, 77, 49, 2, 0, 0, 0, 2, 0, 0, 0, 0, 0, 0, 0,
           97, 98, 99, 100, 0, 0, 0, 0, 0, 0, 0, 0, 1, 0, 0, 0,
           120, 121, 1, 0, 0, 0, 0, 0, 0, 0, 1, 0, 0, 0]"
  by (simp add: build_eval)

section \<open>Empty input\<close>

text \<open>
  Claim C7. Called with an empty mapping, the builder returns successfully and does no
  I/O: the world it returns is the one it was given, so no file is created or
  overwritten and no call on a file is made.
\<close>

theorem build_empty_no_io:
  "build_sequence_store index_folder basename [] w = (w, Inr ())"
  by (simp add: build_sequence_store_def)

section \<open>The order of the writes\<close>

text \<open>
  Claim C8, as amended. A non-empty build that raises nothing makes these calls, in this
  order: it opens the data file, opens the index file, writes the header (with the key
  size \<^verbatim>\<open>len(first_key)\<close>) to the index file, then for each item in sorted key order
  writes the value to the data file, the key to the index file and the offset and length
  to the index file; at the end it closes the index file, then the data file. So each
  record of the index is written after the value it refers to, and the header before any
  value.
\<close>

theorem build_call_order:
  assumes ok: "build_sequence_store index_folder basename seq_dict w = (w', Inr ())"
    and ne: "seq_dict \<noteq> []"
  shows "\<exists>ks. py_len (fst (hd seq_dict)) = Inr ks \<and>
           events w' = events w @
             [OpenW (data_path_of index_folder basename),
              OpenW (index_path_of index_folder basename),
              Write (index_path_of index_folder basename) (header_of ks (length seq_dict))] @
             record_events (data_path_of index_folder basename) (index_path_of index_folder basename)
               0 (sorted_items seq_dict) @
             [CloseW (index_path_of index_folder basename),
              CloseW (data_path_of index_folder basename)]"
proof -
  obtain ks where ks: "py_len (fst (hd seq_dict)) = Inr ks" and ko: "keys_ok ks seq_dict"
    using build_Inr_keys [OF ok ne] by blast
  from build_Inr(8) [OF ok ne ko] ks show ?thesis
    by (simp add: build_events_def)
qed

theorem build_call_order_witness:
  "events (fst (build_sequence_store ''out'' ''seqs''
       [(PyBytes [2], PyStr [66]), (PyBytes [1], PyStr [65])] empty_world)) =
     [OpenW ''out/seqs.mmdata'', OpenW ''out/seqs.mmidx'',
      Write ''out/seqs.mmidx'' [85, 76, 84, 82, 65, 77, 77, 49, 1, 0, 0, 0, 2, 0, 0, 0, 0, 0, 0, 0],
      Write ''out/seqs.mmdata'' [65],
      Write ''out/seqs.mmidx'' [1],
      Write ''out/seqs.mmidx'' [0, 0, 0, 0, 0, 0, 0, 0, 1, 0, 0, 0],
      Write ''out/seqs.mmdata'' [66],
      Write ''out/seqs.mmidx'' [2],
      Write ''out/seqs.mmidx'' [1, 0, 0, 0, 0, 0, 0, 0, 1, 0, 0, 0],
      CloseW ''out/seqs.mmidx'', CloseW ''out/seqs.mmdata'']"
proof -
  let ?items = "[(PyBytes [2], PyStr [66]), (PyBytes [1], PyStr [65])]"
  have s: "snd (build_sequence_store ''out'' ''seqs'' ?items empty_world) = Inr ()"
    by (rule build_fits [where ks = 1])
       (simp_all add: keys_ok_def sorted_items_def seq_bytes_of_def encode_ascii_def)
  then have ok: "build_sequence_store ''out'' ''seqs'' ?items empty_world =
      (fst (build_sequence_store ''out'' ''seqs'' ?items empty_world), Inr ())"
    by (metis prod.collapse)
  show ?thesis
    using build_call_order [OF ok]
    by (simp add: empty_world_def sorted_items_def header_of_def MAGIC_def le_bytes_4 le_bytes_8
        seq_bytes_def seq_bytes_of_def encode_ascii_def index_path_of_def data_path_of_def
        path_join_def)
qed

text \<open>For \<^verbatim>\<open>{b"\x01": "A"}\<close> the 20 bytes of the header are written to the index file
  before the byte of the value is written to the data file.\<close>

theorem data_first_counterexample:
  "\<not> data_file_written_first ''out/seqs.mmdata'' ''out/seqs.mmidx''
       (events (fst (build_sequence_store ''out'' ''seqs'' [(PyBytes [1], PyStr [65])] empty_world)))"
  by (simp add: build_eval data_file_written_first_def)

section \<open>The order of the keys\<close>

text \<open>
  Claim C9, as amended. Let the build of a non-empty mapping succeed, the keys being
  bytes-like objects whose \<^verbatim>\<open>len\<close> is the number \<open>ks\<close> of their bytes, no two keys with
  the same bytes. Then the index file has the header of \<open>ks\<close> and of the number of
  entries, and for every reader on this index file, with the fields that \<^verbatim>\<open>__init__\<close>
  sets from the header (key size \<open>ks\<close>, header size, record size \<open>ks + 12\<close>), and every
  index \<open>i\<close> with \<open>0 \<le> i\<close> and \<open>i + 1\<close> below the record count, the key at record \<open>i\<close> is
  strictly less than the key at record \<open>i + 1\<close>, in the lexicographic order of unsigned
  bytes. The data file plays no part: the statement holds also where it cannot be opened.
\<close>

theorem keys_strictly_increasing:
  assumes ok: "build_sequence_store index_folder basename seq_dict w = (w', Inr ())"
    and ne: "seq_dict \<noteq> []"
    and keys: "\<forall>kv \<in> set seq_dict.
             is_bytes (fst kv) \<and> py_len (fst kv) = Inr ks \<and> length (bytes_of (fst kv)) = ks"
    and dist: "distinct (map (\<lambda>kv. bytes_of (fst kv)) seq_dict)"
  shows "\<exists>ib. files w' (index_path_of index_folder basename) = Some ib \<and>
           header_unpack_from ib 0 = Inr (MAGIC, ks, length seq_dict) \<and>
           (\<forall>st i. index_mm st = ib \<and> key_size st = ks \<and> header_size st = HEADER_SIZE \<and>
                    record_size st = ks + OFFSET_SIZE \<and> 0 \<le> i \<and> i + 1 < int (length seq_dict)
                    \<longrightarrow> key_at st i < key_at st (i + 1))"
proof -
  note ko = key_hypotheses(1) [OF keys] and fl = key_hypotheses(2) [OF keys]
  have dk: "distinct (keys_of seq_dict)" using dist by (simp add: keys_of_def)
  note B = build_Inr [OF ok ne ko]
  let ?srt = "sorted_items seq_dict"
  let ?ib = "header_of ks (length seq_dict) @ records 0 ?srt"
  let ?ref = "store_of (index_path_of index_folder basename) (data_path_of index_folder basename) ks ?srt"
  have fls: "flat_keys ks ?srt" using fl by simp
  have ss: "sorted_wrt (<) (keys_of ?srt)" by (rule strictly_sorted_keys [OF dk])
  have hu: "header_unpack_from ?ib 0 = Inr (MAGIC, ks, length seq_dict)"
    using header_unpack_from_0 [OF B(2,3)] by (simp add: header_of_def)
  have "key_at st i < key_at st (i + 1)"
    if st: "index_mm st = ?ib" "key_size st = ks" "header_size st = HEADER_SIZE"
      "record_size st = ks + OFFSET_SIZE" and i: "0 \<le> i" "i + 1 < int (length seq_dict)"
    for st i
  proof -
    have same: "key_at st j = key_at ?ref j" for j
      using st by (simp add: key_at_def store_of_def)
    define n where "n = nat i"
    have n: "i = int n" "Suc n < length ?srt"
      using i by (simp_all add: n_def)
    have lt: "keys_of ?srt ! n < keys_of ?srt ! Suc n"
      using ss n(2) by (simp add: sorted_wrt_iff_nth_less keys_of_def)
    have n1: "n < length ?srt" using n(2) by simp
    have e: "i + 1 = int (Suc n)" using n(1) by simp
    have k1: "key_at st i = keys_of ?srt ! n"
      unfolding same n(1) key_at_store [OF fls n1] using n1 by (simp add: keys_of_def)
    have k2: "key_at st (i + 1) = keys_of ?srt ! Suc n"
      unfolding same e key_at_store [OF fls n(2)] using n(2) by (simp add: keys_of_def)
    show ?thesis unfolding k1 k2 by (rule lt)
  qed
  with B(5) hu show ?thesis by blast
qed

theorem keys_strictly_increasing_witness:
  "\<exists>w' w'' st.
     build_sequence_store ''out'' ''seqs'' spec_entries empty_world = (w', Inr ()) \<and>
     init (index_path_of ''out'' ''seqs'') (data_path_of ''out'' ''seqs'') w' = (w'', Inr st) \<and>
     len st = 3 \<and> key_at st 0 < key_at st 1 \<and> key_at st 1 < key_at st 2"
proof -
  have ko: "keys_ok 4 spec_entries"
    by (simp add: spec_entries_def keys_ok_def)
  obtain w' w'' st where
    ok: "build_sequence_store ''out'' ''seqs'' spec_entries empty_world = (w', Inr ())" and
    op: "init (index_path_of ''out'' ''seqs'') (data_path_of ''out'' ''seqs'') w' = (w'', Inr st)"
    using build_and_open [OF _ ko, of "''out''" "''seqs''" empty_world]
    by (auto simp: spec_entries_def seq_bytes_of_def seq_bytes_def encode_ascii_def)
  have ne: "spec_entries \<noteq> []" by (simp add: spec_entries_def)
  have st: "st = store_of (index_path_of ''out'' ''seqs'') (data_path_of ''out'' ''seqs'') 4
              (sorted_items spec_entries)"
    by (rule built_store [OF ok ne ko op])
  have l: "len st = 3"
    unfolding st by (simp add: len_def store_of_def spec_entries_def)
  obtain ib where ib: "files w' (index_path_of ''out'' ''seqs'') = Some ib"
    and inc: "\<And>st i. index_mm st = ib \<and> key_size st = 4 \<and> header_size st = HEADER_SIZE \<and>
                record_size st = 4 + OFFSET_SIZE \<and> 0 \<le> i \<and> i + 1 < int (length spec_entries)
                \<Longrightarrow> key_at st i < key_at st (i + 1)"
    using keys_strictly_increasing [OF ok ne, of 4] by (auto simp: spec_entries_def)
  have "index_mm st = ib"
    using build_Inr(5) [OF ok ne ko] ib by (simp add: st store_of_def)
  then have "key_at st 0 < key_at st (0 + 1)" "key_at st 1 < key_at st (1 + 1)"
    by (intro inc; simp add: st store_of_def spec_entries_def)+
  with ok op l show ?thesis by auto
qed

text \<open>
  A dictionary can hold two keys with the same bytes. For
  \<^verbatim>\<open>{b"\x80": "A", memoryview(b"\x80").cast("b"): "B"}\<close> the records 0 and 1 hold the same
  key.
\<close>

theorem keys_strictly_increasing_counterexample:
  "snd (init ''out/seqs.mmidx'' ''out/seqs.mmdata''
          (fst (build_sequence_store ''out'' ''seqs''
                 [(PyBytes [128], PyStr [65]), (PyView (Some 1) [128], PyStr [66])] empty_world))) =
     Inr dup_store \<and>
   key_at dup_store 0 = [128] \<and> key_at dup_store 1 = [128] \<and>
   \<not> key_at dup_store 0 < key_at dup_store 1"
  by (simp add: build_eval init_eval get_eval dup_store_def)

section \<open>A present key with an empty value\<close>

lemma built_empty_value_record:
  assumes ok: "build_sequence_store d b seq_dict w = (w', Inr ())" and ne: "seq_dict \<noteq> []"
    and ko: "keys_ok ks seq_dict" and fl: "flat_keys ks seq_dict"
    and dist: "distinct (keys_of seq_dict)"
    and sz: "20 + length seq_dict * (ks + 12) < 2 ^ 63"
    and op: "init (index_path_of d b) (data_path_of d b) w' = (w'', Inr st)"
    and mem: "(key, v) \<in> set seq_dict" and empty: "seq_bytes v = []"
  shows "\<exists>off. 0 \<le> find_index st key \<and>
           offset_and_length st (find_index st key) = Inr (off, 0)"
  using get_built(2) [OF ok ne ko fl dist sz op mem] empty by auto



end
